theory Spec2Isabelle
  imports Complex_Main "HOL-Library.AList"
begin

section \<open>ChessMMO: the match engine of server.js\<close>

text \<open>
  A shallow embedding of \<^verbatim>\<open>src/server.js\<close>. One room is modelled (rooms share nothing).
  Piece objects are shared between the board and the owners' piece arrays, so they live
  in an explicit store (\<open>pieceObjs\<close>) and both sides hold references. The runtime the
  code relies on is part of the state: the clock read by \<^verbatim>\<open>Date.now()\<close>, the pending
  \<^verbatim>\<open>setTimeout\<close> callbacks and the live \<^verbatim>\<open>setInterval\<close> handles. Client data are typed:
  coordinates are integers, a piece id \<^verbatim>\<open>`${playerId}_${index}`\<close> is the pair it is built
  from, a coordinate key \<^verbatim>\<open>`${row},${col}`\<close> is the pair of its numbers. The payloads of
  emitted messages keep the fields the properties below talk about; the serialised
  snapshot they carry is left out.
\<close>

subsection \<open>Constants and the random source\<close>

definition BOARD_SIZE :: int where
  "BOARD_SIZE = 200"

definition MAX_PLAYERS :: nat where
  "MAX_PLAYERS = 20"

text \<open>\<^verbatim>\<open>Math.random()\<close> returns a number in \<open>[0, 1)\<close>; a function that draws reads a
  stream of such numbers at a cursor and returns the next cursor.\<close>

typedef rnd = "{r::real. 0 \<le> r \<and> r < 1}"
  by (rule exI[of _ 0]) simp

setup_lifting type_definition_rnd

text \<open>\<^verbatim>\<open>Math.floor(Math.random() * n)\<close>\<close>

lift_definition randomInt :: "rnd \<Rightarrow> int \<Rightarrow> int" is "\<lambda>r n. \<lfloor>r * of_int n\<rfloor>" .

text \<open>\<^verbatim>\<open>Math.random() > 0.5\<close>\<close>

lift_definition randomAboveHalf :: "rnd \<Rightarrow> bool" is "\<lambda>r. r > 1 / 2" .

lift_definition rndOf :: "nat \<Rightarrow> nat \<Rightarrow> rnd" is
  "\<lambda>a b. if a < b then real a / real b else 0"
  by auto

subsection \<open>Data\<close>

datatype pieceType = King | Queen | Rook | Bishop | Knight | Pawn

datatype pieceColor = White | Black

datatype phaseT = Lobby | Playing | Ended

datatype error = TypeError

type_synonym coord = "int \<times> int"

type_synonym pieceId = "string \<times> nat"

record piece =
  piece_id :: pieceId
  piece_type :: pieceType
  piece_color :: pieceColor
  playerId :: string
  row :: int
  col :: int
  canMove :: bool
  cooldownExpires :: int

record player =
  player_id :: string
  sessionId :: string
  socketId :: string
  name :: string
  isAdmin :: bool
  color :: string
  pieces :: "nat list"
  alive :: bool
  connected_pl :: bool
  joinedAt :: int
  disconnectedAt :: "int option"

datatype callback = CooldownExpiry nat | RemovalCheck string

datatype message =
    InvalidMove
  | PieceMoved pieceId int int int int string
  | GameEnded "string option"
  | CooldownExpired pieceId
  | TimerUpdate int "coord set"
  | PlayerRemoved string
  | GameStarted
  | GameReset
  | JoinError string
  | ErrorMsg string
  | JoinedRoom string
  | PlayerJoined string nat
  | Reconnected string
  | PlayerReconnected string string
  | PlayerDisconnected string string

datatype target = ToSocket | ToRoom | ToOthers

type_synonym emission = "target \<times> message"

text \<open>The room of \<^verbatim>\<open>createGameRoom\<close>. \<open>players\<close> is a JS \<^verbatim>\<open>Map\<close>: an association list in
  insertion order. \<open>board\<close> gives the \<^verbatim>\<open>piece\<close> field of each cell (the cell's \<^verbatim>\<open>woods\<close>
  flag is never written). The last six fields are the store and the runtime.\<close>

record room =
  room_id :: string
  phase :: phaseT
  players :: "(string \<times> player) list"
  board :: "coord \<Rightarrow> nat option"
  woods :: "coord set"
  dangerZones :: "coord set"
  shrinkTimer :: int
  shrinkInterval :: "nat option"
  turn :: int
  admin :: "string option"
  createdAt :: int
  lastActivity :: int
  pieceObjs :: "nat \<Rightarrow> piece"
  nextObj :: nat
  clock :: int
  timeouts :: "(int \<times> callback) list"
  liveIntervals :: "nat set"
  nextHandle :: nat

definition inBounds :: "coord \<Rightarrow> bool" where
  "inBounds p = (0 \<le> fst p \<and> fst p < BOARD_SIZE \<and> 0 \<le> snd p \<and> snd p < BOARD_SIZE)"

subsection \<open>createBoard and generateWoods\<close>

definition createBoard :: "coord \<Rightarrow> nat option" where
  "createBoard = (\<lambda>_. None)"

definition woodsOffset :: "rnd \<Rightarrow> int" where
  "woodsOffset r = randomInt r 6 - 3"

text \<open>The body of the inner loop: one sub-draw of a patch.\<close>

definition woodsSubDraw :: "coord set \<Rightarrow> int \<Rightarrow> int \<Rightarrow> rnd \<Rightarrow> rnd \<Rightarrow> coord set" where
  "woodsSubDraw ws centerRow centerCol r1 r2 =
     (let offsetRow = woodsOffset r1;
          offsetCol = woodsOffset r2;
          row' = centerRow + offsetRow;
          col' = centerCol + offsetCol
      in if row' \<ge> 0 \<and> row' < BOARD_SIZE \<and> col' \<ge> 0 \<and> col' < BOARD_SIZE
         then insert (row', col') ws else ws)"

fun woodsPatch :: "(nat \<Rightarrow> rnd) \<Rightarrow> nat \<Rightarrow> int \<Rightarrow> int \<Rightarrow> nat \<Rightarrow> coord set \<Rightarrow> coord set \<times> nat" where
  "woodsPatch rs k centerRow centerCol 0 ws = (ws, k)"
| "woodsPatch rs k centerRow centerCol (Suc j) ws =
     woodsPatch rs (k + 2) centerRow centerCol j
       (woodsSubDraw ws centerRow centerCol (rs k) (rs (k + 1)))"

fun woodsSeeds :: "(nat \<Rightarrow> rnd) \<Rightarrow> nat \<Rightarrow> nat \<Rightarrow> coord set \<Rightarrow> coord set \<times> nat" where
  "woodsSeeds rs k 0 ws = (ws, k)"
| "woodsSeeds rs k (Suc i) ws =
     (let centerRow = randomInt (rs k) BOARD_SIZE;
          centerCol = randomInt (rs (k + 1)) BOARD_SIZE;
          patchSize = randomInt (rs (k + 2)) 8 + 3;
          (ws', k') = woodsPatch rs (k + 3) centerRow centerCol (nat patchSize) ws
      in woodsSeeds rs k' i ws')"

definition numPatches :: nat where
  "numPatches = nat \<lfloor>real_of_int (BOARD_SIZE * BOARD_SIZE) * (5 / 100)\<rfloor>"

definition generateWoods :: "(nat \<Rightarrow> rnd) \<Rightarrow> nat \<Rightarrow> coord set \<times> nat" where
  "generateWoods rs k = woodsSeeds rs k numPatches {}"

subsection \<open>Piece removal, lookup and win detection\<close>

definition removePieceFromGame :: "room \<Rightarrow> nat \<Rightarrow> room" where
  "removePieceFromGame rm pc =
     (case map_of (players rm) (playerId (pieceObjs rm pc)) of
        None \<Rightarrow> rm
      | Some pl \<Rightarrow>
          (let kept = filter (\<lambda>p. piece_id (pieceObjs rm p) \<noteq> piece_id (pieceObjs rm pc)) (pieces pl);
               pl1 = pl\<lparr>pieces := kept\<rparr>;
               pl2 = (if length kept = 0 then pl1\<lparr>alive := False\<rparr> else pl1)
           in rm\<lparr>players := AList.update (playerId (pieceObjs rm pc)) pl2 (players rm)\<rparr>))"

fun findPieceIn :: "(nat \<Rightarrow> piece) \<Rightarrow> (string \<times> player) list \<Rightarrow> pieceId \<Rightarrow> nat option" where
  "findPieceIn objs [] pid = None"
| "findPieceIn objs (kp # rest) pid =
     (case find (\<lambda>p. piece_id (objs p) = pid) (pieces (snd kp)) of
        Some pc \<Rightarrow> Some pc
      | None \<Rightarrow> findPieceIn objs rest pid)"

definition findPiece :: "room \<Rightarrow> pieceId \<Rightarrow> nat option" where
  "findPiece rm pid = findPieceIn (pieceObjs rm) (players rm) pid"

definition alivePlayers :: "room \<Rightarrow> player list" where
  "alivePlayers rm = filter (\<lambda>p. alive p \<and> length (pieces p) > 0) (map snd (players rm))"

text \<open>\<^verbatim>\<open>clearInterval(room.shrinkInterval)\<close>, guarded by the handle being set.\<close>

definition clearShrinkInterval :: "room \<Rightarrow> room" where
  "clearShrinkInterval rm =
     (case shrinkInterval rm of
        None \<Rightarrow> rm
      | Some h \<Rightarrow> rm\<lparr>liveIntervals := liveIntervals rm - {h}\<rparr>)"

definition checkGameEnd :: "room \<Rightarrow> room \<times> emission list" where
  "checkGameEnd rm =
     (let ap = alivePlayers rm in
      if length ap \<le> 1
      then (clearShrinkInterval (rm\<lparr>phase := Ended\<rparr>),
            [(ToRoom, GameEnded (case ap of [] \<Rightarrow> None | winner # _ \<Rightarrow> Some (name winner)))])
      else (rm, []))"

subsection \<open>The move engine\<close>

definition chebyshev :: "int \<Rightarrow> int \<Rightarrow> int \<Rightarrow> int \<Rightarrow> int" where
  "chebyshev r1 c1 r2 c2 = max \<bar>r1 - r2\<bar> \<bar>c1 - c2\<bar>"

text \<open>\<^verbatim>\<open>isValidMove\<close>; reading \<^verbatim>\<open>player.pieces\<close> of a missing player throws.\<close>

definition isValidMove :: "room \<Rightarrow> nat \<Rightarrow> int \<Rightarrow> int \<Rightarrow> error + bool" where
  "isValidMove rm pc toRow toCol =
     (if toRow < 0 \<or> toRow \<ge> BOARD_SIZE \<or> toCol < 0 \<or> toCol \<ge> BOARD_SIZE then Inr False
      else if (toRow, toCol) \<in> woods rm \<or> (toRow, toCol) \<in> dangerZones rm then Inr False
      else if \<not> canMove (pieceObjs rm pc) \<and> piece_type (pieceObjs rm pc) \<noteq> King then Inr False
      else (case map_of (players rm) (playerId (pieceObjs rm pc)) of
              None \<Rightarrow> Inl TypeError
            | Some pl \<Rightarrow>
               (case find (\<lambda>p. piece_type (pieceObjs rm p) = King) (pieces pl) of
                  Some king \<Rightarrow>
                    (if chebyshev toRow toCol (row (pieceObjs rm king)) (col (pieceObjs rm king)) > 10
                     then Inr False else Inr True)
                | None \<Rightarrow> Inr True)))"

text \<open>The four parts of \<^verbatim>\<open>executeMove\<close>, named after its comments: remove the piece from its
  old position, handle the capture, move the piece, set the cooldown (with the
  \<^verbatim>\<open>setTimeout\<close> of the expiry callback).\<close>

definition clearOrigin :: "room \<Rightarrow> nat \<Rightarrow> room" where
  "clearOrigin rm pc =
     rm\<lparr>board := (board rm)((row (pieceObjs rm pc), col (pieceObjs rm pc)) := None)\<rparr>"

definition handleCapture :: "room \<Rightarrow> int \<Rightarrow> int \<Rightarrow> room" where
  "handleCapture rm toRow toCol =
     (case board rm (toRow, toCol) of
        None \<Rightarrow> rm
      | Some capturedPiece \<Rightarrow> removePieceFromGame rm capturedPiece)"

definition movePieceTo :: "room \<Rightarrow> nat \<Rightarrow> int \<Rightarrow> int \<Rightarrow> room" where
  "movePieceTo rm pc toRow toCol =
     rm\<lparr>pieceObjs := (pieceObjs rm)(pc := (pieceObjs rm pc)\<lparr>row := toRow, col := toCol\<rparr>),
        board := (board rm)((toRow, toCol) := Some pc)\<rparr>"

definition setCooldown :: "room \<Rightarrow> nat \<Rightarrow> room" where
  "setCooldown rm pc =
     (if piece_type (pieceObjs rm pc) \<noteq> King
      then rm\<lparr>pieceObjs := (pieceObjs rm)
                  (pc := (pieceObjs rm pc)\<lparr>canMove := False,
                                          cooldownExpires := clock rm + 5000\<rparr>),
              timeouts := timeouts rm @ [(clock rm + 5000, CooldownExpiry pc)]\<rparr>
      else rm)"

text \<open>\<^verbatim>\<open>executeMove\<close>; indexing the board outside the grid throws.\<close>

definition executeMove :: "room \<Rightarrow> nat \<Rightarrow> int \<Rightarrow> int \<Rightarrow> error + room" where
  "executeMove rm pc toRow toCol =
     (if \<not> inBounds (row (pieceObjs rm pc), col (pieceObjs rm pc)) then Inl TypeError
      else if \<not> inBounds (toRow, toCol) then Inl TypeError
      else Inr (setCooldown
                  (movePieceTo (handleCapture (clearOrigin rm pc) toRow toCol) pc toRow toCol)
                  pc))"

text \<open>The \<^verbatim>\<open>move_piece\<close> handler, for a socket whose room exists; \<open>sp\<close> is
  \<^verbatim>\<open>socket.playerId\<close>.\<close>

definition move_piece ::
  "room \<Rightarrow> string option \<Rightarrow> pieceId \<Rightarrow> int \<Rightarrow> int \<Rightarrow> int \<Rightarrow> int \<Rightarrow> error + (room \<times> emission list)" where
  "move_piece rm sp pid fromRow fromCol toRow toCol =
     (if phase rm \<noteq> Playing then Inr (rm, [])
      else
       (case sp of
          None \<Rightarrow> Inr (rm, [])
        | Some socketPlayerId \<Rightarrow>
           (case map_of (players rm) socketPlayerId of
              None \<Rightarrow> Inr (rm, [])
            | Some pl \<Rightarrow>
               (if \<not> alive pl then Inr (rm, [])
                else
                 (case findPiece rm pid of
                    None \<Rightarrow> Inr (rm, [])
                  | Some pc \<Rightarrow>
                     (if playerId (pieceObjs rm pc) \<noteq> socketPlayerId then Inr (rm, [])
                      else
                       (case isValidMove rm pc toRow toCol of
                          Inl e \<Rightarrow> Inl e
                        | Inr valid \<Rightarrow>
                           (if \<not> valid then Inr (rm, [(ToSocket, InvalidMove)])
                            else
                             (case executeMove rm pc toRow toCol of
                                Inl e \<Rightarrow> Inl e
                              | Inr rm' \<Rightarrow>
                                 Inr (fst (checkGameEnd rm'),
                                      (ToRoom, PieceMoved pid fromRow fromCol toRow toCol socketPlayerId)
                                        # snd (checkGameEnd rm')))))))))))"

subsection \<open>Spawn placement and the piece factory\<close>

definition minDistance :: real where
  "minDistance = 20"

definition maxAttempts :: nat where
  "maxAttempts = 1000"

text \<open>The inner \<^verbatim>\<open>for (const pos of positions)\<close> with its \<^verbatim>\<open>break\<close>.\<close>

fun tooClose :: "int \<Rightarrow> int \<Rightarrow> coord list \<Rightarrow> bool" where
  "tooClose row' col' [] = False"
| "tooClose row' col' (pos # rest) =
     (if sqrt (real_of_int ((row' - fst pos)\<^sup>2 + (col' - snd pos)\<^sup>2)) < minDistance then True
      else tooClose row' col' rest)"

text \<open>The \<^verbatim>\<open>while (!validPosition && attempts < maxAttempts)\<close> loop: the accepted
  position, or \<open>None\<close> when the budget is used up.\<close>

function placeAttempts :: "(nat \<Rightarrow> rnd) \<Rightarrow> nat \<Rightarrow> coord list \<Rightarrow> nat \<Rightarrow> coord option \<times> nat" where
  "placeAttempts rs k positions attempts =
     (if attempts < maxAttempts
      then (let row' = randomInt (rs k) (BOARD_SIZE - 10) + 5;
                col' = randomInt (rs (k + 1)) (BOARD_SIZE - 10) + 5
            in if \<not> tooClose row' col' positions then (Some (row', col'), k + 2)
               else placeAttempts rs (k + 2) positions (attempts + 1))
      else (None, k))"
  by pat_completeness auto
termination
  by (relation "measure (\<lambda>(rs, k, positions, attempts). maxAttempts - attempts)") auto

declare placeAttempts.simps [simp del]

text \<open>The \<^verbatim>\<open>switch (edge)\<close> has no default; \<open>edge\<close> is one of 0, 1, 2, 3.\<close>

definition fallbackSpawn :: "rnd \<Rightarrow> rnd \<Rightarrow> coord" where
  "fallbackSpawn r1 r2 =
     (let edge = randomInt r1 4 in
      if edge = 0 then (5, randomInt r2 BOARD_SIZE)
      else if edge = 1 then (BOARD_SIZE - 5, randomInt r2 BOARD_SIZE)
      else if edge = 2 then (randomInt r2 BOARD_SIZE, 5)
      else (randomInt r2 BOARD_SIZE, BOARD_SIZE - 5))"

fun generateSpawnFrom :: "(nat \<Rightarrow> rnd) \<Rightarrow> nat \<Rightarrow> nat \<Rightarrow> coord list \<Rightarrow> coord list \<times> nat" where
  "generateSpawnFrom rs k 0 positions = (positions, k)"
| "generateSpawnFrom rs k (Suc n) positions =
     (case placeAttempts rs k positions 0 of
        (Some p, k') \<Rightarrow> generateSpawnFrom rs k' n (positions @ [p])
      | (None, k') \<Rightarrow>
          generateSpawnFrom rs (k' + 2) n (positions @ [fallbackSpawn (rs k') (rs (k' + 1))]))"

definition generateSpawnPositions :: "(nat \<Rightarrow> rnd) \<Rightarrow> nat \<Rightarrow> nat \<Rightarrow> coord list \<times> nat" where
  "generateSpawnPositions rs k playerCount = generateSpawnFrom rs k playerCount []"

definition pieceTypes :: "(pieceType \<times> int \<times> int) list" where
  "pieceTypes =
     [(King, 0, 0), (Queen, 0, 1), (Rook, 0, -1), (Rook, 0, 2),
      (Bishop, 0, -2), (Bishop, 0, 3), (Knight, 0, -3), (Knight, 0, 4),
      (Pawn, 1, -3), (Pawn, 1, -2), (Pawn, 1, -1), (Pawn, 1, 0),
      (Pawn, 1, 1), (Pawn, 1, 2), (Pawn, 1, 3), (Pawn, 1, 4)]"

definition createPlayerPieces :: "string \<Rightarrow> int \<Rightarrow> int \<Rightarrow> rnd \<Rightarrow> piece list" where
  "createPlayerPieces pid startRow startCol r =
     (let color' = (if randomAboveHalf r then White else Black) in
      map (\<lambda>(index, (t, dr, dc)).
             \<lparr>piece_id = (pid, index), piece_type = t, piece_color = color', playerId = pid,
              row = max 0 (min (BOARD_SIZE - 1) (startRow + dr)),
              col = max 0 (min (BOARD_SIZE - 1) (startCol + dc)),
              canMove = True, cooldownExpires = 0\<rparr>)
        (enumerate 0 pieceTypes))"

text \<open>New piece objects get the next free references, in order.\<close>

definition allocPieces :: "room \<Rightarrow> piece list \<Rightarrow> room \<times> nat list" where
  "allocPieces rm ps =
     (rm\<lparr>pieceObjs := (\<lambda>q. if nextObj rm \<le> q \<and> q < nextObj rm + length ps
                            then ps ! (q - nextObj rm) else pieceObjs rm q),
         nextObj := nextObj rm + length ps\<rparr>,
      [nextObj rm ..< nextObj rm + length ps])"

definition placePiece :: "room \<Rightarrow> nat \<Rightarrow> room" where
  "placePiece rm pc =
     rm\<lparr>board := (board rm)((row (pieceObjs rm pc), col (pieceObjs rm pc)) := Some pc)\<rparr>"

text \<open>The loop of \<^verbatim>\<open>spawnPlayers\<close> over the entries of \<^verbatim>\<open>room.players\<close>; it stops when the
  spawn positions run out.\<close>

fun spawnPlayersFrom ::
  "room \<Rightarrow> (string \<times> player) list \<Rightarrow> coord list \<Rightarrow> (nat \<Rightarrow> rnd) \<Rightarrow> nat \<Rightarrow> room \<times> nat" where
  "spawnPlayersFrom rm [] spawnPositions rs k = (rm, k)"
| "spawnPlayersFrom rm (kp # rest) [] rs k = (rm, k)"
| "spawnPlayersFrom rm (kp # rest) (spawn # others) rs k =
     (let (rm1, refs) = allocPieces rm (createPlayerPieces (fst kp) (fst spawn) (snd spawn) (rs k));
          rm2 = rm1\<lparr>players := AList.update (fst kp) ((snd kp)\<lparr>pieces := refs\<rparr>) (players rm1)\<rparr>;
          rm3 = foldl placePiece rm2 refs
      in spawnPlayersFrom rm3 rest others rs (k + 1))"

definition spawnPlayers :: "room \<Rightarrow> (nat \<Rightarrow> rnd) \<Rightarrow> nat \<Rightarrow> room \<times> nat" where
  "spawnPlayers rm rs k =
     (let (spawnPositions, k1) = generateSpawnPositions rs k (length (players rm))
      in spawnPlayersFrom rm (players rm) spawnPositions rs k1)"

subsection \<open>The shrink scheduler\<close>

definition onRing :: "coord \<Rightarrow> bool" where
  "onRing p = (fst p = 0 \<or> fst p = BOARD_SIZE - 1 \<or> snd p = 0 \<or> snd p = BOARD_SIZE - 1)"

definition borderSquares :: "coord set \<Rightarrow> coord list" where
  "borderSquares dz =
     filter (\<lambda>p. onRing p \<and> p \<notin> dz) (List.product [0..BOARD_SIZE - 1] [0..BOARD_SIZE - 1])"

text \<open>One round of the selection loop on the chosen square: it joins the danger zones and
  the piece standing on it, if any, is removed.\<close>

definition claimSquare :: "room \<Rightarrow> coord \<Rightarrow> room" where
  "claimSquare rm square =
     (let rm1 = rm\<lparr>dangerZones := insert square (dangerZones rm)\<rparr>
      in case board rm1 square of
           None \<Rightarrow> rm1
         | Some pc \<Rightarrow> removePieceFromGame rm1 pc)"

text \<open>The selection loop; its bound \<^verbatim>\<open>Math.min(2, borderSquares.length)\<close> is read again at
  every round, after the \<^verbatim>\<open>splice\<close>.\<close>

function shrinkLoop :: "room \<Rightarrow> coord list \<Rightarrow> nat \<Rightarrow> (nat \<Rightarrow> rnd) \<Rightarrow> nat \<Rightarrow> room \<times> nat" where
  "shrinkLoop rm bs i rs k =
     (if i < min 2 (length bs)
      then (let randomIndex = nat (randomInt (rs k) (int (length bs)));
                square = bs ! randomIndex;
                bs' = take randomIndex bs @ drop (Suc randomIndex) bs
            in shrinkLoop (claimSquare rm square) bs' (i + 1) rs (k + 1))
      else (rm, k))"
  by pat_completeness auto
termination
  by (relation "measure (\<lambda>(rm, bs, i, rs, k). 2 - i)") auto

declare shrinkLoop.simps [simp del]

definition shrinkBoard :: "room \<Rightarrow> (nat \<Rightarrow> rnd) \<Rightarrow> nat \<Rightarrow> room \<times> nat" where
  "shrinkBoard rm rs k = shrinkLoop rm (borderSquares (dangerZones rm)) 0 rs k"

definition startShrinkTimer :: "room \<Rightarrow> room" where
  "startShrinkTimer rm =
     rm\<lparr>shrinkInterval := Some (nextHandle rm),
        liveIntervals := insert (nextHandle rm) (liveIntervals rm),
        nextHandle := Suc (nextHandle rm)\<rparr>"

text \<open>The callback of the interval started by \<^verbatim>\<open>startShrinkTimer\<close>.\<close>

definition shrinkTick :: "room \<Rightarrow> (nat \<Rightarrow> rnd) \<Rightarrow> room \<times> emission list" where
  "shrinkTick rm rs =
     (if phase rm \<noteq> Playing then (clearShrinkInterval rm, [])
      else
       (let rm1 = rm\<lparr>shrinkTimer := shrinkTimer rm - 1\<rparr>;
            rm2 = (if shrinkTimer rm1 \<le> 0
                   then (fst (shrinkBoard rm1 rs 0))\<lparr>shrinkTimer := 1\<rparr>
                   else rm1)
        in (rm2, [(ToRoom, TimerUpdate (shrinkTimer rm2) (dangerZones rm2))])))"

subsection \<open>Room and player lifecycle\<close>

definition ADMIN_PASSWORD :: string where
  "ADMIN_PASSWORD = ''chipschessmmo''"

definition createGameRoom :: "string \<Rightarrow> (nat \<Rightarrow> rnd) \<Rightarrow> int \<Rightarrow> room" where
  "createGameRoom roomId rs now =
     \<lparr>room_id = roomId, phase = Lobby, players = [], board = createBoard,
      woods = fst (generateWoods rs 0), dangerZones = {}, shrinkTimer = 60,
      shrinkInterval = None, turn = 0, admin = None, createdAt = now, lastActivity = now,
      pieceObjs = (\<lambda>_. \<lparr>piece_id = ([], 0), piece_type = Pawn, piece_color = White,
                          playerId = [], row = 0, col = 0, canMove = True,
                          cooldownExpires = 0\<rparr>),
      nextObj = 0, clock = now, timeouts = [], liveIntervals = {}, nextHandle = 0\<rparr>"

definition colors :: "string list" where
  "colors =
     [''#FF6B6B'', ''#4ECDC4'', ''#45B7D1'', ''#96CEB4'', ''#FECA57'',
      ''#FF9FF3'', ''#54A0FF'', ''#5F27CD'', ''#00D2D3'', ''#FF9F43'',
      ''#FD79A8'', ''#6C5CE7'', ''#A29BFE'', ''#FD79A8'', ''#FDCB6E'',
      ''#E17055'', ''#74B9FF'', ''#0984E3'', ''#00B894'', ''#FDCB6E'']"

definition getPlayerColor :: "nat \<Rightarrow> string" where
  "getPlayerColor index = colors ! (index mod length colors)"

text \<open>The \<^verbatim>\<open>join_room\<close> handler on an existing room. \<open>newId\<close> is the string
  \<^verbatim>\<open>`player_${Date.now()}_${Math.random()}`\<close>.\<close>

definition join_room ::
  "room \<Rightarrow> string \<Rightarrow> string \<Rightarrow> bool \<Rightarrow> string \<Rightarrow> string \<Rightarrow> string \<Rightarrow> room \<times> emission list" where
  "join_room rm sock playerName wantsAdmin adminPassword sess newId =
     (if wantsAdmin \<and> adminPassword \<noteq> ADMIN_PASSWORD
      then (rm, [(ToSocket, JoinError ''Invalid admin password'')])
      else
       (case find (\<lambda>kp. sessionId (snd kp) = sess) (players rm) of
          Some kp \<Rightarrow>
            (rm\<lparr>players := AList.update (fst kp)
                    ((snd kp)\<lparr>socketId := sock, connected_pl := True\<rparr>) (players rm),
                lastActivity := clock rm\<rparr>,
             [(ToSocket, Reconnected (player_id (snd kp))),
              (ToOthers, PlayerReconnected (player_id (snd kp)) (name (snd kp)))])
        | None \<Rightarrow>
            (if length (players rm) \<ge> MAX_PLAYERS
             then (rm, [(ToSocket, JoinError ''Room is full'')])
             else if phase rm \<noteq> Lobby
             then (rm, [(ToSocket, JoinError ''Game already in progress'')])
             else
              (let pl = \<lparr>player_id = newId, sessionId = sess, socketId = sock,
                         name = playerName, isAdmin = (wantsAdmin \<and> admin rm = None),
                         color = getPlayerColor (length (players rm)), pieces = [],
                         alive = True, connected_pl = True, joinedAt = clock rm,
                         disconnectedAt = None\<rparr>;
                   rm1 = (if isAdmin pl then rm\<lparr>admin := Some newId\<rparr> else rm);
                   rm2 = rm1\<lparr>players := AList.update newId pl (players rm1)\<rparr>
               in (rm2\<lparr>lastActivity := clock rm\<rparr>,
                   [(ToSocket, JoinedRoom newId),
                    (ToOthers, PlayerJoined newId (length (players rm2)))])))))"

definition start_game :: "room \<Rightarrow> string option \<Rightarrow> (nat \<Rightarrow> rnd) \<Rightarrow> room \<times> emission list" where
  "start_game rm sp rs =
     (case (case sp of None \<Rightarrow> None | Some k \<Rightarrow> map_of (players rm) k) of
        None \<Rightarrow> (rm, [(ToSocket, ErrorMsg ''Admin access required'')])
      | Some pl \<Rightarrow>
          (if \<not> isAdmin pl then (rm, [(ToSocket, ErrorMsg ''Admin access required'')])
           else if phase rm \<noteq> Lobby then (rm, [(ToSocket, ErrorMsg ''Game already started'')])
           else if length (players rm) < 2
           then (rm, [(ToSocket, ErrorMsg ''Need at least 2 players'')])
           else (startShrinkTimer (fst (spawnPlayers (rm\<lparr>phase := Playing\<rparr>) rs 0)),
                 [(ToRoom, GameStarted)])))"

definition resetGame :: "room \<Rightarrow> (nat \<Rightarrow> rnd) \<Rightarrow> room" where
  "resetGame rm rs =
     (clearShrinkInterval
        (rm\<lparr>phase := Lobby, board := createBoard, woods := fst (generateWoods rs 0),
            dangerZones := {}, shrinkTimer := 60, turn := 0\<rparr>))
       \<lparr>players := map (\<lambda>kp. (fst kp, (snd kp)\<lparr>pieces := [], alive := True\<rparr>)) (players rm)\<rparr>"

definition reset_game :: "room \<Rightarrow> string option \<Rightarrow> (nat \<Rightarrow> rnd) \<Rightarrow> room \<times> emission list" where
  "reset_game rm sp rs =
     (case (case sp of None \<Rightarrow> None | Some k \<Rightarrow> map_of (players rm) k) of
        None \<Rightarrow> (rm, [])
      | Some pl \<Rightarrow>
          (if \<not> isAdmin pl then (rm, [])
           else (resetGame rm rs, [(ToRoom, GameReset)])))"

text \<open>\<^verbatim>\<open>removePlayer\<close>; its \<^verbatim>\<open>forEach\<close> empties the cell of each piece, the statement
  \<open>clearOrigin\<close> stands for. A piece recorded outside the grid makes the board write
  throw.\<close>

definition removePlayer :: "room \<Rightarrow> string \<Rightarrow> error + room" where
  "removePlayer rm pid =
     (case map_of (players rm) pid of
        None \<Rightarrow> Inr rm
      | Some pl \<Rightarrow>
          (if \<exists>pc \<in> set (pieces pl). \<not> inBounds (row (pieceObjs rm pc), col (pieceObjs rm pc))
           then Inl TypeError
           else
            (let rm1 = foldl clearOrigin rm (pieces pl);
                 rm2 = rm1\<lparr>players := AList.delete pid (players rm1)\<rparr>
             in Inr (if admin rm2 = Some pid \<and> length (players rm2) > 0
                     then (case players rm2 of
                             [] \<Rightarrow> rm2
                           | kp # rest \<Rightarrow>
                               rm2\<lparr>players := (fst kp, (snd kp)\<lparr>isAdmin := True\<rparr>) # rest,
                                   admin := Some (player_id (snd kp))\<rparr>)
                     else rm2))))"

text \<open>The \<^verbatim>\<open>disconnect\<close> handler: it schedules the removal check five minutes ahead.\<close>

definition disconnect :: "room \<Rightarrow> string option \<Rightarrow> room \<times> emission list" where
  "disconnect rm sp =
     (case sp of
        None \<Rightarrow> (rm, [])
      | Some k \<Rightarrow>
          (case map_of (players rm) k of
             None \<Rightarrow> (rm, [])
           | Some pl \<Rightarrow>
               (rm\<lparr>players := AList.update k
                       (pl\<lparr>connected_pl := False, disconnectedAt := Some (clock rm)\<rparr>) (players rm),
                   timeouts := timeouts rm @ [(clock rm + 5 * 60 * 1000, RemovalCheck k)]\<rparr>,
                [(ToOthers, PlayerDisconnected k (name pl))])))"

subsection \<open>Timer callbacks and the event loop\<close>

text \<open>The callback scheduled by \<^verbatim>\<open>executeMove\<close>.\<close>

definition cooldownExpired :: "room \<Rightarrow> nat \<Rightarrow> room \<times> emission list" where
  "cooldownExpired rm pc =
     (rm\<lparr>pieceObjs := (pieceObjs rm)(pc := (pieceObjs rm pc)\<lparr>canMove := True\<rparr>)\<rparr>,
      [(ToRoom, CooldownExpired (piece_id (pieceObjs rm pc)))])"

text \<open>The callback scheduled by the \<^verbatim>\<open>disconnect\<close> handler.\<close>

definition removalCheck :: "room \<Rightarrow> string \<Rightarrow> error + (room \<times> emission list)" where
  "removalCheck rm k =
     (case map_of (players rm) k of
        None \<Rightarrow> Inr (rm, [])
      | Some p \<Rightarrow>
          (if \<not> connected_pl p
           then (case removePlayer rm k of
                   Inl e \<Rightarrow> Inl e
                 | Inr rm' \<Rightarrow> Inr (rm', [(ToRoom, PlayerRemoved k)]))
           else Inr (rm, [])))"

text \<open>What can happen to a room: a client message, time passing, a pending timeout whose
  delay has elapsed, a tick of a live interval.\<close>

datatype action =
    Join string string bool string string string
  | StartGame "string option" "nat \<Rightarrow> rnd"
  | MovePiece "string option" pieceId int int int int
  | ResetGame "string option" "nat \<Rightarrow> rnd"
  | Disconnect "string option"
  | Elapse nat
  | FireTimeout nat
  | FireInterval nat "nat \<Rightarrow> rnd"

text \<open>A timeout fires once, not before its due time; an interval ticks while its handle is
  live. An action that is not enabled, or a handler that throws, leaves the step undefined.\<close>

definition step :: "room \<Rightarrow> action \<Rightarrow> (room \<times> emission list) option" where
  "step rm a =
     (case a of
        Join sock playerName wantsAdmin adminPassword sess newId \<Rightarrow>
          Some (join_room rm sock playerName wantsAdmin adminPassword sess newId)
      | StartGame sp rs \<Rightarrow> Some (start_game rm sp rs)
      | MovePiece sp pid fromRow fromCol toRow toCol \<Rightarrow>
          (case move_piece rm sp pid fromRow fromCol toRow toCol of
             Inl e \<Rightarrow> None
           | Inr res \<Rightarrow> Some res)
      | ResetGame sp rs \<Rightarrow> Some (reset_game rm sp rs)
      | Disconnect sp \<Rightarrow> Some (disconnect rm sp)
      | Elapse ms \<Rightarrow> Some (rm\<lparr>clock := clock rm + int ms\<rparr>, [])
      | FireTimeout n \<Rightarrow>
          (if n < length (timeouts rm) \<and> fst (timeouts rm ! n) \<le> clock rm
           then (let rm1 = rm\<lparr>timeouts := take n (timeouts rm) @ drop (Suc n) (timeouts rm)\<rparr>
                 in case snd (timeouts rm ! n) of
                      CooldownExpiry pc \<Rightarrow> Some (cooldownExpired rm1 pc)
                    | RemovalCheck k \<Rightarrow>
                        (case removalCheck rm1 k of
                           Inl e \<Rightarrow> None
                         | Inr res \<Rightarrow> Some res))
           else None)
      | FireInterval h rs \<Rightarrow>
          (if h \<in> liveIntervals rm then Some (shrinkTick rm rs) else None))"

text \<open>The rooms a run of the server can reach from a fresh one.\<close>

inductive reachable :: "room \<Rightarrow> bool" where
  fresh: "reachable (createGameRoom roomId rs now)"
| after: "reachable rm \<Longrightarrow> step rm a = Some (rm', ems) \<Longrightarrow> reachable rm'"

subsection \<open>Example rooms\<close>

definition mkPiece :: "string \<Rightarrow> nat \<Rightarrow> pieceType \<Rightarrow> int \<Rightarrow> int \<Rightarrow> piece" where
  "mkPiece owner i t r c =
     \<lparr>piece_id = (owner, i), piece_type = t, piece_color = White, playerId = owner,
      row = r, col = c, canMove = True, cooldownExpires = 0\<rparr>"

definition mkPlayer :: "string \<Rightarrow> nat list \<Rightarrow> player" where
  "mkPlayer k ps =
     \<lparr>player_id = k, sessionId = k, socketId = k, name = k, isAdmin = False, color = ''#FF6B6B'',
      pieces = ps, alive = True, connected_pl = True, joinedAt = 0, disconnectedAt = None\<rparr>"

definition demoObjs :: "nat \<Rightarrow> piece" where
  "demoObjs = (\<lambda>_. mkPiece ''a'' 0 King 50 50)
     (11 := mkPiece ''a'' 11 Pawn 51 50,
      12 := mkPiece ''a'' 12 Pawn 51 51,
      13 := mkPiece ''b'' 0 King 100 100,
      14 := mkPiece ''b'' 8 Pawn 101 100,
      15 := mkPiece ''c'' 8 Pawn 0 0)"

text \<open>A match in progress: \<open>a\<close> holds a king and two pawns, \<open>b\<close> a king and a pawn, \<open>c\<close> has
  lost its king and keeps one pawn, on the corner of the board.\<close>

definition demoRoom :: room where
  "demoRoom =
     \<lparr>room_id = ''r'', phase = Playing,
      players = [(''a'', mkPlayer ''a'' [10, 11, 12]), (''b'', mkPlayer ''b'' [13, 14]),
                 (''c'', mkPlayer ''c'' [15])],
      board = (\<lambda>_. None)((50, 50) := Some 10, (51, 50) := Some 11, (51, 51) := Some 12,
                (100, 100) := Some 13, (101, 100) := Some 14, (0, 0) := Some 15),
      woods = {(52, 52)}, dangerZones = {(0, 1)}, shrinkTimer = 1, shrinkInterval = Some 0,
      turn = 0, admin = Some ''a'', createdAt = 0, lastActivity = 0,
      pieceObjs = demoObjs, nextObj = 16, clock = 1000, timeouts = [],
      liveIntervals = {0}, nextHandle = 1\<rparr>"

text \<open>The same match with the second pawn of \<open>a\<close> on the outer ring, two squares from the
  pawn of \<open>c\<close>.\<close>

definition ringRoom :: room where
  "ringRoom =
     demoRoom\<lparr>pieceObjs := demoObjs(12 := mkPiece ''a'' 12 Pawn 0 2),
              board := (board demoRoom)((51, 51) := None, (0, 2) := Some 12)\<rparr>"

definition demoDraws :: "nat \<Rightarrow> rnd" where
  "demoDraws i = rndOf i 4"

definition zeroDraws :: "nat \<Rightarrow> rnd" where
  "zeroDraws i = rndOf 0 1"

text \<open>A short run of the server: a room is created (with draws that plant no woods), two
  players join, the first as admin, and the admin starts the match.\<close>

definition demoLobby :: room where
  "demoLobby = createGameRoom ''r'' zeroDraws 0"

definition demoJoined :: room where
  "demoJoined =
     fst (join_room
            (fst (join_room demoLobby ''s1'' ''ann'' True ADMIN_PASSWORD ''k1'' ''p1''))
            ''s2'' ''bob'' False [] ''k2'' ''p2'')"

definition demoMatch :: room where
  "demoMatch = fst (start_game demoJoined (Some ''p1'') demoDraws)"

subsection \<open>Predicates used to state the properties\<close>

text \<open>The piece is in no piece list of the player it names as its owner.\<close>

definition removedFromOwner :: "room \<Rightarrow> nat \<Rightarrow> bool" where
  "removedFromOwner rm pc =
     (case map_of (players rm) (playerId (pieceObjs rm pc)) of
        None \<Rightarrow> True
      | Some pl \<Rightarrow> pc \<notin> set (pieces pl))"

text \<open>How \<^verbatim>\<open>generateSpawnPositions\<close> comes to a position \<open>p\<close> when \<open>prev\<close> are the positions
  accepted before it: either the attempt loop returned \<open>p\<close>, and then \<open>p\<close> is in the inset
  region and at Euclidean distance at least 20 from each of \<open>prev\<close>; or the attempt loop
  used up its budget, and \<open>p\<close> is the fallback point, on one of the four lines.\<close>

definition acceptedSpawn :: "(nat \<Rightarrow> rnd) \<Rightarrow> coord list \<Rightarrow> coord \<Rightarrow> bool" where
  "acceptedSpawn rs prev p =
     ((\<exists>kk k2. placeAttempts rs kk prev 0 = (Some p, k2))
        \<and> 5 \<le> fst p \<and> fst p < 195 \<and> 5 \<le> snd p \<and> snd p < 195
        \<and> (\<forall>q \<in> set prev. sqrt (real_of_int ((fst p - fst q)\<^sup>2 + (snd p - snd q)\<^sup>2)) \<ge> 20)
      \<or> (\<exists>kk k2. placeAttempts rs kk prev 0 = (None, k2) \<and> p = fallbackSpawn (rs k2) (rs (k2 + 1)))
        \<and> (fst p = 5 \<or> fst p = 195 \<or> snd p = 5 \<or> snd p = 195))"

text \<open>Two players left in a match: \<open>a\<close> with three pieces, and \<open>c\<close>, disconnected, with a
  single pawn on the corner square. The shrink countdown is at its last second.\<close>

definition duelRoom :: room where
  "duelRoom =
     \<lparr>room_id = ''r'', phase = Playing,
      players = [(''a'', mkPlayer ''a'' [10, 11, 12]),
                 (''c'', (mkPlayer ''c'' [15])\<lparr>connected_pl := False\<rparr>)],
      board = (\<lambda>_. None)((50, 50) := Some 10, (51, 50) := Some 11, (51, 51) := Some 12,
                (0, 0) := Some 15),
      woods = {(52, 52)}, dangerZones = {(0, 1)}, shrinkTimer = 1, shrinkInterval = Some 0,
      turn = 0, admin = Some ''a'', createdAt = 0, lastActivity = 0,
      pieceObjs = demoObjs, nextObj = 16, clock = 1000, timeouts = [],
      liveIntervals = {0}, nextHandle = 1\<rparr>"

subsection \<open>Invariants of a room\<close>

text \<open>The pieces with a pending cooldown callback, in scheduling order.\<close>

definition cooldownTargets :: "(int \<times> callback) list \<Rightarrow> nat list" where
  "cooldownTargets ts =
     concat (map (\<lambda>t. case snd t of CooldownExpiry q \<Rightarrow> [q] | RemovalCheck k \<Rightarrow> []) ts)"

text \<open>Every piece in a player's list names that player as its owner, stands on the board
  grid and is an allocated object.\<close>

definition ownedPieces :: "room \<Rightarrow> bool" where
  "ownedPieces rm =
     (\<forall>kp \<in> set (players rm). \<forall>pc \<in> set (pieces (snd kp)).
        playerId (pieceObjs rm pc) = fst kp
        \<and> inBounds (row (pieceObjs rm pc), col (pieceObjs rm pc))
        \<and> pc < nextObj rm)"

definition boardAllocated :: "room \<Rightarrow> bool" where
  "boardAllocated rm = (\<forall>sq pc. board rm sq = Some pc \<longrightarrow> pc < nextObj rm)"

text \<open>In the lobby nobody has pieces, everybody is alive and the board is empty.\<close>

definition lobbyClean :: "room \<Rightarrow> bool" where
  "lobbyClean rm =
     ((\<forall>kp \<in> set (players rm). alive (snd kp) \<and> pieces (snd kp) = [])
      \<and> (\<forall>sq. board rm sq = None))"

text \<open>A player is dead exactly when its piece list is empty.\<close>

definition aliveIffPieces :: "room \<Rightarrow> bool" where
  "aliveIffPieces rm =
     (\<forall>kp \<in> set (players rm). (\<not> alive (snd kp)) = (pieces (snd kp) = []))"

text \<open>A piece with a pending cooldown callback cannot move, and has one such callback.\<close>

definition cooldownsPending :: "room \<Rightarrow> bool" where
  "cooldownsPending rm =
     ((\<forall>q \<in> set (cooldownTargets (timeouts rm)). \<not> canMove (pieceObjs rm q) \<and> q < nextObj rm)
      \<and> distinct (cooldownTargets (timeouts rm)))"

definition roomInv :: "room \<Rightarrow> bool" where
  "roomInv rm =
     (distinct (map fst (players rm)) \<and> ownedPieces rm \<and> boardAllocated rm
      \<and> (phase rm = Lobby \<longrightarrow> lobbyClean rm)
      \<and> (phase rm \<noteq> Lobby \<longrightarrow> aliveIffPieces rm)
      \<and> cooldownsPending rm)"

text \<open>The state of a room inside the loop of \<^verbatim>\<open>spawnPlayers\<close>, when the entries \<open>rest\<close> are
  still to be given their pieces.\<close>

definition spawning :: "room \<Rightarrow> (string \<times> player) list \<Rightarrow> bool" where
  "spawning rm rest =
     (distinct (map fst (players rm)) \<and> ownedPieces rm \<and> boardAllocated rm
      \<and> cooldownsPending rm \<and> phase rm = Playing
      \<and> distinct (map fst rest) \<and> fst ` set rest \<subseteq> fst ` set (players rm)
      \<and> (\<forall>kp \<in> set rest. alive (snd kp))
      \<and> (\<forall>kp \<in> set (players rm). alive (snd kp))
      \<and> (\<forall>kp \<in> set (players rm). fst kp \<notin> fst ` set rest \<longrightarrow> pieces (snd kp) \<noteq> []))"

text \<open>A run: the actions are taken in order; the run is undefined when one of them is not
  enabled or throws.\<close>

fun run :: "room \<Rightarrow> action list \<Rightarrow> room option" where
  "run rm [] = Some rm"
| "run rm (a # as) = (case step rm a of None \<Rightarrow> None | Some res \<Rightarrow> run (fst res) as)"

text \<open>The piece \<open>pc\<close> is a non-king on cooldown, and none of its pending expiry callbacks
  is due before the time \<open>T\<close>.\<close>

definition cooling :: "room \<Rightarrow> nat \<Rightarrow> int \<Rightarrow> bool" where
  "cooling rm pc T =
     (\<not> canMove (pieceObjs rm pc) \<and> piece_type (pieceObjs rm pc) \<noteq> King \<and> pc < nextObj rm
      \<and> (\<forall>t \<in> set (timeouts rm). snd t = CooldownExpiry pc \<longrightarrow> T \<le> fst t))"

subsection \<open>Board-piece duality\<close>









section \<open>Properties\<close>

subsection \<open>Facts about the example room\<close>

lemmas demo_defs = demoRoom_def demoObjs_def mkPlayer_def mkPiece_def

lemma demo_phase: "phase demoRoom = Playing"
  by (simp add: demoRoom_def)

lemma demo_player_a: "map_of (players demoRoom) ''a'' = Some (mkPlayer ''a'' [10, 11, 12])"
  by (simp add: demoRoom_def)

lemma demo_player_c: "map_of (players demoRoom) ''c'' = Some (mkPlayer ''c'' [15])"
  by (simp add: demoRoom_def)

lemma demo_alive: "alive (mkPlayer k ps)"
  by (simp add: mkPlayer_def)

lemma demo_find_11: "findPiece demoRoom (''a'', 11) = Some 11"
  by (simp add: findPiece_def demo_defs)

lemma demo_find_15: "findPiece demoRoom (''c'', 8) = Some 15"
  by (simp add: findPiece_def demo_defs)

lemma demo_owner_11: "playerId (pieceObjs demoRoom 11) = ''a''"
  by (simp add: demo_defs)

lemma demo_owner_15: "playerId (pieceObjs demoRoom 15) = ''c''"
  by (simp add: demo_defs)

subsection \<open>The random source\<close>

lemma randomInt_bounds: "0 < n \<Longrightarrow> 0 \<le> randomInt r n \<and> randomInt r n < n"
  by transfer (auto simp: floor_less_iff)

text \<open>The draws that give \<open>j\<close> form an interval of length \<open>1 / n\<close>, the same for every \<open>j\<close>.\<close>

lemma randomInt_interval:
  "0 < n \<Longrightarrow> randomInt r n = j \<longleftrightarrow>
     of_int j / of_int n \<le> Rep_rnd r \<and> Rep_rnd r < (of_int j + 1) / of_int n"
  unfolding randomInt.rep_eq
  by (auto simp: floor_eq_iff field_simps)

lemma randomInt_rndOf: "a < b \<Longrightarrow> randomInt (rndOf a b) (int b) = int a"
  by (simp add: randomInt.rep_eq rndOf.rep_eq)

subsection \<open>Move validation\<close>

lemma players_removePiece_board:
  "players (removePieceFromGame (rm\<lparr>board := b\<rparr>) occ) = players (removePieceFromGame rm occ)"
  by (simp add: removePieceFromGame_def Let_def split: option.splits)

lemma pieceObjs_removePiece [simp]: "pieceObjs (removePieceFromGame rm occ) = pieceObjs rm"
  by (simp add: removePieceFromGame_def Let_def split: option.splits)

lemma board_removePiece [simp]: "board (removePieceFromGame rm occ) = board rm"
  by (simp add: removePieceFromGame_def Let_def split: option.splits)

lemma isValidMove_inBounds:
  "isValidMove rm pc toRow toCol = Inr True \<Longrightarrow> inBounds (toRow, toCol)"
  by (auto simp: isValidMove_def inBounds_def split: if_splits)

text \<open>
  C4. The \<^verbatim>\<open>move_piece\<close> handler rejects a move whose destination is outside the board, in
  the woods or in a danger zone, whatever the sender and the piece: the room is returned
  as it was and nothing is sent but, at most, \<^verbatim>\<open>invalid_move\<close> to the sender. When the
  request passes the handler's gates (match in progress, sender alive, piece found and
  owned by the sender), each such destination, a destination farther than Chebyshev
  distance 10 from the sender's king, and a non-king piece with \<open>canMove = False\<close> give
  exactly: room unchanged, one \<^verbatim>\<open>invalid_move\<close> to the sender, no broadcast.
\<close>

theorem move_piece_rejects:
  "(toRow < 0 \<or> toRow \<ge> BOARD_SIZE \<or> toCol < 0 \<or> toCol \<ge> BOARD_SIZE
      \<or> (toRow, toCol) \<in> woods rm \<or> (toRow, toCol) \<in> dangerZones rm
    \<longrightarrow> (\<exists>ems. move_piece rm s pid fromRow fromCol toRow toCol = Inr (rm, ems)
            \<and> (ems = [] \<or> ems = [(ToSocket, InvalidMove)])))
   \<and> (phase rm = Playing \<and> map_of (players rm) sp = Some pl \<and> alive pl
      \<and> findPiece rm pid = Some pc \<and> playerId (pieceObjs rm pc) = sp
      \<and> (toRow < 0 \<or> toRow \<ge> BOARD_SIZE \<or> toCol < 0 \<or> toCol \<ge> BOARD_SIZE
         \<or> (toRow, toCol) \<in> woods rm \<or> (toRow, toCol) \<in> dangerZones rm
         \<or> (\<exists>king. find (\<lambda>p. piece_type (pieceObjs rm p) = King) (pieces pl) = Some king
                \<and> chebyshev toRow toCol (row (pieceObjs rm king)) (col (pieceObjs rm king)) > 10)
         \<or> (piece_type (pieceObjs rm pc) \<noteq> King \<and> \<not> canMove (pieceObjs rm pc)))
    \<longrightarrow> move_piece rm (Some sp) pid fromRow fromCol toRow toCol
          = Inr (rm, [(ToSocket, InvalidMove)]))"
proof (intro conjI impI)
  assume "toRow < 0 \<or> toRow \<ge> BOARD_SIZE \<or> toCol < 0 \<or> toCol \<ge> BOARD_SIZE
      \<or> (toRow, toCol) \<in> woods rm \<or> (toRow, toCol) \<in> dangerZones rm"
  then have "isValidMove rm x toRow toCol = Inr False" for x
    by (auto simp: isValidMove_def)
  then show "\<exists>ems. move_piece rm s pid fromRow fromCol toRow toCol = Inr (rm, ems)
            \<and> (ems = [] \<or> ems = [(ToSocket, InvalidMove)])"
    by (simp add: move_piece_def split: option.splits)
next
  assume "phase rm = Playing \<and> map_of (players rm) sp = Some pl \<and> alive pl
      \<and> findPiece rm pid = Some pc \<and> playerId (pieceObjs rm pc) = sp
      \<and> (toRow < 0 \<or> toRow \<ge> BOARD_SIZE \<or> toCol < 0 \<or> toCol \<ge> BOARD_SIZE
         \<or> (toRow, toCol) \<in> woods rm \<or> (toRow, toCol) \<in> dangerZones rm
         \<or> (\<exists>king. find (\<lambda>p. piece_type (pieceObjs rm p) = King) (pieces pl) = Some king
                \<and> chebyshev toRow toCol (row (pieceObjs rm king)) (col (pieceObjs rm king)) > 10)
         \<or> (piece_type (pieceObjs rm pc) \<noteq> King \<and> \<not> canMove (pieceObjs rm pc)))"
  then show "move_piece rm (Some sp) pid fromRow fromCol toRow toCol
          = Inr (rm, [(ToSocket, InvalidMove)])"
    by (auto simp: move_piece_def isValidMove_def split: option.splits)
qed

theorem move_piece_rejects_witness:
  "move_piece demoRoom (Some ''a'') (''a'', 11) 51 50 52 52 = Inr (demoRoom, [(ToSocket, InvalidMove)])
   \<and> move_piece demoRoom (Some ''a'') (''a'', 11) 51 50 61 50 = Inr (demoRoom, [(ToSocket, InvalidMove)])"
proof -
  have w: "(52, 52) \<in> woods demoRoom"
    by (simp add: demoRoom_def)
  have k: "find (\<lambda>p. piece_type (pieceObjs demoRoom p) = King) (pieces (mkPlayer ''a'' [10, 11, 12])) = Some 10
      \<and> chebyshev 61 50 (row (pieceObjs demoRoom 10)) (col (pieceObjs demoRoom 10)) > 10"
    by (simp add: demo_defs chebyshev_def)
  show ?thesis
    using move_piece_rejects[of 52 52 demoRoom _ "(''a'', 11)" 51 50 "''a''" "mkPlayer ''a'' [10, 11, 12]" 11]
      move_piece_rejects[of 61 50 demoRoom _ "(''a'', 11)" 51 50 "''a''" "mkPlayer ''a'' [10, 11, 12]" 11]
      demo_phase demo_player_a demo_alive demo_find_11 demo_owner_11 w k
    by blast
qed

text \<open>
  C10. If no piece in the acting player's list is a king, \<^verbatim>\<open>isValidMove\<close> makes no distance
  check: a request that passes the handler's gates, with a destination on the board,
  outside the woods and the danger zones, and a piece that passes the cooldown gate, is
  valid whatever the distance, and the handler goes on to execute and broadcast it.
\<close>

theorem kingless_move_accepted:
  assumes "phase rm = Playing" and "map_of (players rm) sp = Some pl" and "alive pl"
    and "findPiece rm pid = Some pc" and "playerId (pieceObjs rm pc) = sp"
    and "\<forall>p \<in> set (pieces pl). piece_type (pieceObjs rm p) \<noteq> King"
    and "inBounds (toRow, toCol)" and "(toRow, toCol) \<notin> woods rm" and "(toRow, toCol) \<notin> dangerZones rm"
    and "canMove (pieceObjs rm pc) \<or> piece_type (pieceObjs rm pc) = King"
  shows "isValidMove rm pc toRow toCol = Inr True
     \<and> move_piece rm (Some sp) pid fromRow fromCol toRow toCol =
         (case executeMove rm pc toRow toCol of
            Inl e \<Rightarrow> Inl e
          | Inr rm' \<Rightarrow> Inr (fst (checkGameEnd rm'),
               (ToRoom, PieceMoved pid fromRow fromCol toRow toCol sp) # snd (checkGameEnd rm')))"
proof -
  have nf: "find (\<lambda>p. piece_type (pieceObjs rm p) = King) (pieces pl) = None"
    using assms(6) by (simp add: find_None_iff)
  have v: "isValidMove rm pc toRow toCol = Inr True"
    using assms nf by (auto simp: isValidMove_def inBounds_def)
  show ?thesis
    using assms(1-5) v by (simp add: move_piece_def)
qed

theorem kingless_move_accepted_witness:
  "isValidMove demoRoom 15 180 180 = Inr True
   \<and> (\<exists>rm'. move_piece demoRoom (Some ''c'') (''c'', 8) 0 0 180 180
         = Inr (rm', [(ToRoom, PieceMoved (''c'', 8) 0 0 180 180 ''c'')])
       \<and> board rm' (180, 180) = Some 15)"
proof -
  have nk: "\<forall>p \<in> set (pieces (mkPlayer ''c'' [15])). piece_type (pieceObjs demoRoom p) \<noteq> King"
    by (simp add: demo_defs)
  have ib: "inBounds (180, 180)"
    by (simp add: inBounds_def BOARD_SIZE_def)
  have w: "(180, 180) \<notin> woods demoRoom" and d: "(180, 180) \<notin> dangerZones demoRoom"
    by (simp_all add: demoRoom_def)
  have cm: "canMove (pieceObjs demoRoom 15) \<or> piece_type (pieceObjs demoRoom 15) = King"
    by (simp add: demo_defs)
  have ex: "\<exists>rm'. executeMove demoRoom 15 180 180 = Inr rm' \<and> board rm' (180, 180) = Some 15
      \<and> checkGameEnd rm' = (rm', [])"
    by (simp add: executeMove_def clearOrigin_def handleCapture_def movePieceTo_def
        setCooldown_def inBounds_def BOARD_SIZE_def demo_defs checkGameEnd_def
        alivePlayers_def Let_def)
  show ?thesis
    using kingless_move_accepted[OF demo_phase demo_player_c demo_alive demo_find_15 demo_owner_15
        nk ib w d cm, of 0 0] ex
    by auto
qed

subsection \<open>Move execution\<close>

text \<open>
  C7. For a validated move, \<^verbatim>\<open>executeMove\<close> clears the origin cell and then looks at the
  destination cell: whatever piece it holds, with no test of its owner, is taken out by
  \<^verbatim>\<open>removePieceFromGame\<close>; the origin cell ends empty, the destination cell holds the moving
  piece, the other cells are untouched, and the piece records the destination as its
  position.
\<close>

theorem executeMove_capture:
  assumes "isValidMove rm pc toRow toCol = Inr True"
    and "inBounds (row (pieceObjs rm pc), col (pieceObjs rm pc))"
    and "((board rm)((row (pieceObjs rm pc), col (pieceObjs rm pc)) := None)) (toRow, toCol) = Some occ"
  shows "\<exists>rm'. executeMove rm pc toRow toCol = Inr rm'
      \<and> players rm' = players (removePieceFromGame rm occ)
      \<and> board rm' (row (pieceObjs rm pc), col (pieceObjs rm pc)) = None
      \<and> board rm' (toRow, toCol) = Some pc
      \<and> (\<forall>sq. sq \<noteq> (row (pieceObjs rm pc), col (pieceObjs rm pc)) \<and> sq \<noteq> (toRow, toCol)
            \<longrightarrow> board rm' sq = board rm sq)
      \<and> row (pieceObjs rm' pc) = toRow \<and> col (pieceObjs rm' pc) = toCol"
proof -
  have ib: "inBounds (toRow, toCol)"
    using assms(1) by (rule isValidMove_inBounds)
  have ne: "(toRow, toCol) \<noteq> (row (pieceObjs rm pc), col (pieceObjs rm pc))"
    using assms(3) by auto
  show ?thesis
    using assms(2,3) ib ne
    by (auto simp: executeMove_def clearOrigin_def handleCapture_def movePieceTo_def
        setCooldown_def players_removePiece_board)
qed

theorem executeMove_capture_witness:
  "\<exists>rm'. executeMove demoRoom 11 51 51 = Inr rm'
      \<and> map (\<lambda>kp. (fst kp, pieces (snd kp))) (players rm')
          = [(''a'', [10, 11]), (''b'', [13, 14]), (''c'', [15])]
      \<and> board rm' (51, 50) = None \<and> board rm' (51, 51) = Some 11
      \<and> row (pieceObjs rm' 11) = 51 \<and> col (pieceObjs rm' 11) = 51"
proof -
  have v: "isValidMove demoRoom 11 51 51 = Inr True"
    by (simp add: isValidMove_def demo_defs BOARD_SIZE_def chebyshev_def)
  have o: "inBounds (row (pieceObjs demoRoom 11), col (pieceObjs demoRoom 11))"
    by (simp add: inBounds_def demo_defs BOARD_SIZE_def)
  have c: "((board demoRoom)((row (pieceObjs demoRoom 11), col (pieceObjs demoRoom 11)) := None)) (51, 51) = Some 12"
    by (simp add: demo_defs)
  have p: "map (\<lambda>kp. (fst kp, pieces (snd kp))) (players (removePieceFromGame demoRoom 12))
      = [(''a'', [10, 11]), (''b'', [13, 14]), (''c'', [15])]"
    by (simp add: removePieceFromGame_def demo_defs)
  have r: "row (pieceObjs demoRoom 11) = 51 \<and> col (pieceObjs demoRoom 11) = 50"
    by (simp add: demo_defs)
  show ?thesis
    using executeMove_capture[OF v o c] p r by auto
qed

subsection \<open>Terrain generation\<close>

lemma woodsOffset_range: "-3 \<le> woodsOffset r \<and> woodsOffset r \<le> 2"
  using randomInt_bounds[of 6 r] by (simp add: woodsOffset_def)

text \<open>
  C8, as stated, fails: no draw gives the offset 3.
\<close>

theorem woodsOffset_never_three: "\<not> (\<exists>r. woodsOffset r = 3)"
proof
  assume "\<exists>r. woodsOffset r = 3"
  then obtain r where "woodsOffset r = 3" ..
  with woodsOffset_range[of r] show False by simp
qed

text \<open>
  C8, amended. \<^verbatim>\<open>Math.floor(Math.random() * 6) - 3\<close> is an integer from -3 to 2: each of the six
  values is drawn, each on an interval of draws of length 1/6, and the two offsets of a
  sub-draw come from two separate draws. The sub-draw adds the offset coordinate to the
  woods when it is on the board and leaves the woods as they are otherwise; adding a
  coordinate already there changes nothing.
\<close>

theorem woods_subdraw:
  "- 3 \<le> woodsOffset r \<and> woodsOffset r \<le> 2
   \<and> woodsOffset (rndOf 0 6) = - 3 \<and> woodsOffset (rndOf 1 6) = - 2 \<and> woodsOffset (rndOf 2 6) = - 1
   \<and> woodsOffset (rndOf 3 6) = 0 \<and> woodsOffset (rndOf 4 6) = 1 \<and> woodsOffset (rndOf 5 6) = 2
   \<and> (woodsOffset r = v \<longleftrightarrow> (of_int v + 3) / 6 \<le> Rep_rnd r \<and> Rep_rnd r < (of_int v + 4) / 6)
   \<and> woodsSubDraw ws centerRow centerCol r1 r2 =
       (if inBounds (centerRow + woodsOffset r1, centerCol + woodsOffset r2)
        then insert (centerRow + woodsOffset r1, centerCol + woodsOffset r2) ws else ws)
   \<and> woodsSubDraw (woodsSubDraw ws centerRow centerCol r1 r2) centerRow centerCol r1 r2
       = woodsSubDraw ws centerRow centerCol r1 r2"
proof -
  have a: "woodsOffset (rndOf a 6) = int a - 3" if "a < 6" for a
    using randomInt_rndOf[of a 6] that by (simp add: woodsOffset_def)
  have b: "woodsOffset r = v \<longleftrightarrow> (of_int v + 3) / 6 \<le> Rep_rnd r \<and> Rep_rnd r < (of_int v + 4) / 6"
    using randomInt_interval[of 6 r "v + 3"] by (auto simp: woodsOffset_def)
  show ?thesis
    using woodsOffset_range[of r] a[of 0] a[of 1] a[of 2] a[of 3] a[of 4] a[of 5] b
    by (auto simp: woodsSubDraw_def Let_def inBounds_def)
qed

subsection \<open>Shrink events\<close>

lemma borderSquares_set:
  "set (borderSquares dz) = {p. inBounds p \<and> onRing p \<and> p \<notin> dz}"
  by (auto simp: borderSquares_def inBounds_def)

lemma borderSquares_distinct: "distinct (borderSquares dz)"
  by (simp add: borderSquares_def distinct_product)

lemma players_removePiece_keys:
  "map fst (players (removePieceFromGame rm pc)) = map fst (players rm)"
  by (auto simp: removePieceFromGame_def Let_def update_keys map_of_eq_None_iff
      split: option.splits)

lemma dangerZones_removePiece [simp]: "dangerZones (removePieceFromGame rm pc) = dangerZones rm"
  by (simp add: removePieceFromGame_def Let_def split: option.splits)

text \<open>Removal only shrinks piece lists.\<close>

lemma removePiece_lists_shrink:
  assumes "map_of (players (removePieceFromGame rm pc)) k = Some pl'"
  shows "\<exists>pl. map_of (players rm) k = Some pl \<and> set (pieces pl') \<subseteq> set (pieces pl)"
  using assms
  by (auto simp: removePieceFromGame_def Let_def update_conv' split: option.splits if_splits)

lemma removePiece_removes:
  assumes "map_of (players (removePieceFromGame rm pc)) (playerId (pieceObjs rm pc)) = Some pl'"
  shows "pc \<notin> set (pieces pl')"
  using assms
  by (auto simp: removePieceFromGame_def Let_def update_conv' split: option.splits if_splits)

lemma removedFromOwner_removePiece_same: "removedFromOwner (removePieceFromGame rm pc) pc"
  using removePiece_removes[of rm pc]
  by (auto simp: removedFromOwner_def split: option.splits)

lemma removedFromOwner_removePiece_other: "removedFromOwner rm pc \<Longrightarrow> removedFromOwner (removePieceFromGame rm x) pc"
  using removePiece_lists_shrink[of rm x "playerId (pieceObjs rm pc)"]
  by (fastforce simp: removedFromOwner_def split: option.splits)

lemma removedFromOwner_dangerZones [simp]: "removedFromOwner (rm\<lparr>dangerZones := d\<rparr>) pc = removedFromOwner rm pc"
  by (simp add: removedFromOwner_def)

lemma nth_remove_in:
  assumes "j < length bs"
  shows "set (take j bs @ drop (Suc j) bs) \<subseteq> set bs"
  by (auto dest: in_set_takeD in_set_dropD)

lemma distinct_remove_nth:
  assumes "distinct bs" and "j < length bs"
  shows "distinct (take j bs @ drop (Suc j) bs) \<and> bs ! j \<notin> set (take j bs @ drop (Suc j) bs)"
proof -
  have "distinct (take j bs @ bs ! j # drop (Suc j) bs)"
    using assms id_take_nth_drop[OF assms(2)] by simp
  then show ?thesis by auto
qed

lemma shrinkLoop_sel:
  assumes "shrinkLoop rm bs i rs k = (rm', k')" and "distinct bs"
  shows "\<exists>sel. distinct sel \<and> set sel \<subseteq> set bs \<and> length sel \<le> 2 - i
      \<and> dangerZones rm' = dangerZones rm \<union> set sel
      \<and> board rm' = board rm \<and> pieceObjs rm' = pieceObjs rm
      \<and> (\<forall>pc. removedFromOwner rm pc \<longrightarrow> removedFromOwner rm' pc)
      \<and> (\<forall>sq \<in> set sel. \<forall>pc. board rm sq = Some pc \<longrightarrow> removedFromOwner rm' pc)
      \<and> (i < min 2 (length bs) \<longrightarrow> bs ! nat (randomInt (rs k) (int (length bs))) \<in> set sel)"
  using assms
proof (induction rm bs i rs k arbitrary: rm' k' rule: shrinkLoop.induct)
  case (1 rm bs i rs k)
  show ?case
  proof (cases "i < min 2 (length bs)")
    case False
    with "1.prems" have "rm' = rm"
      by (subst (asm) shrinkLoop.simps) (simp del: min_less_iff_conj)
    then show ?thesis
      using False by (intro exI[of _ "[]"]) simp
  next
    case True
    define j where "j = nat (randomInt (rs k) (int (length bs)))"
    define sq where "sq = bs ! j"
    define bs' where "bs' = take j bs @ drop (Suc j) bs"
    define rm2 where "rm2 = claimSquare rm sq"
    have len: "0 < length bs" using True by auto
    have jlt: "j < length bs"
      using randomInt_bounds[of "int (length bs)" "rs k"] len unfolding j_def by linarith
    have rec: "shrinkLoop rm2 bs' (i + 1) rs (k + 1) = (rm', k')"
      using "1.prems"(1) True
      by (subst (asm) shrinkLoop.simps)
         (simp add: Let_def j_def sq_def bs'_def rm2_def del: min_less_iff_conj)
    have dbs: "distinct bs'"
      using distinct_remove_nth[OF "1.prems"(2) jlt] by (simp add: bs'_def)
    from "1.IH"[OF True j_def sq_def bs'_def, folded rm2_def, OF rec dbs]
    obtain sel where sel: "distinct sel" "set sel \<subseteq> set bs'" "length sel \<le> 2 - (i + 1)"
      "dangerZones rm' = dangerZones rm2 \<union> set sel" "board rm' = board rm2"
      "pieceObjs rm' = pieceObjs rm2" "\<forall>pc. removedFromOwner rm2 pc \<longrightarrow> removedFromOwner rm' pc"
      "\<forall>sq \<in> set sel. \<forall>pc. board rm2 sq = Some pc \<longrightarrow> removedFromOwner rm' pc"
      by blast
    have sqnot: "sq \<notin> set bs'"
      using distinct_remove_nth[OF "1.prems"(2) jlt] by (simp add: bs'_def sq_def)
    have sub: "set bs' \<subseteq> set bs"
      unfolding bs'_def using nth_remove_in[OF jlt] .
    have sqin: "sq \<in> set bs"
      using jlt by (simp add: sq_def)
    have b2: "board rm2 = board rm" and o2: "pieceObjs rm2 = pieceObjs rm"
      and d2: "dangerZones rm2 = insert sq (dangerZones rm)"
      by (auto simp: rm2_def claimSquare_def Let_def split: option.splits)
    have g2: "removedFromOwner rm pc \<Longrightarrow> removedFromOwner rm2 pc" for pc
      using removedFromOwner_removePiece_other[of "rm\<lparr>dangerZones := insert sq (dangerZones rm)\<rparr>" pc]
      by (auto simp: rm2_def claimSquare_def Let_def split: option.splits)
    have gs: "board rm sq = Some pc \<Longrightarrow> removedFromOwner rm2 pc" for pc
      using removedFromOwner_removePiece_same[of "rm\<lparr>dangerZones := insert sq (dangerZones rm)\<rparr>" pc]
      by (auto simp: rm2_def claimSquare_def Let_def split: option.splits)
    show ?thesis
      apply (rule exI[of _ "sq # sel"])
      using sel(1-7) sel(8)[rule_format] sqnot sub sqin b2 o2 d2 g2 gs True
      by (auto simp: sq_def[symmetric] j_def[symmetric])
  qed
qed

lemma claimSquare_fields:
  "dangerZones (claimSquare rm sq) = insert sq (dangerZones rm)"
  "board (claimSquare rm sq) = board rm"
  "pieceObjs (claimSquare rm sq) = pieceObjs rm"
  "players (claimSquare rm sq)
     = players (case board rm sq of None \<Rightarrow> rm | Some pc \<Rightarrow> removePieceFromGame rm pc)"
  by (simp_all add: claimSquare_def removePieceFromGame_def Let_def split: option.splits)

lemma shrinkLoop_unroll:
  assumes "j1 = nat (randomInt (rs k) (int (length bs)))"
    and "bs1 = take j1 bs @ drop (Suc j1) bs"
    and "j2 = nat (randomInt (rs (k + 1)) (int (length bs1)))"
  shows "shrinkLoop rm bs 0 rs k =
     (if bs = [] then (rm, k)
      else if length bs < 3 then (claimSquare rm (bs ! j1), k + 1)
      else (claimSquare (claimSquare rm (bs ! j1)) (bs1 ! j2), k + 2))"
proof (cases "bs = []")
  case True
  then show ?thesis
    by (subst shrinkLoop.simps) simp
next
  case False
  then have len: "0 < length bs" by simp
  have jlt: "j1 < length bs"
    using randomInt_bounds[of "int (length bs)" "rs k"] len unfolding assms(1) by linarith
  have l1: "length bs1 = length bs - 1"
    using jlt by (simp add: assms(2))
  have first: "shrinkLoop rm bs 0 rs k = shrinkLoop (claimSquare rm (bs ! j1)) bs1 1 rs (k + 1)"
    using len by (subst shrinkLoop.simps) (simp add: Let_def assms(1,2))
  show ?thesis
  proof (cases "length bs < 3")
    case True
    then have "\<not> Suc 0 < length bs1"
      using l1 by simp
    then have "shrinkLoop (claimSquare rm (bs ! j1)) bs1 1 rs (k + 1)
        = (claimSquare rm (bs ! j1), k + 1)"
      by (subst shrinkLoop.simps) simp
    with first False True show ?thesis by simp
  next
    case long: False
    then have c: "Suc 0 < length bs1"
      using l1 by simp
    have "shrinkLoop (claimSquare rm (bs ! j1)) bs1 1 rs (k + 1)
        = shrinkLoop (claimSquare (claimSquare rm (bs ! j1)) (bs1 ! j2))
            (take j2 bs1 @ drop (Suc j2) bs1) 2 rs (k + 2)"
      using c by (subst shrinkLoop.simps) (simp add: Let_def assms(3) numeral_2_eq_2)
    also have "\<dots> = (claimSquare (claimSquare rm (bs ! j1)) (bs1 ! j2), k + 2)"
      by (subst shrinkLoop.simps) simp
    finally show ?thesis
      using first False long by simp
  qed
qed

lemma removePiece_players_cong:
  "players r1 = players r2 \<Longrightarrow> pieceObjs r1 = pieceObjs r2 \<Longrightarrow>
     players (removePieceFromGame r1 pc) = players (removePieceFromGame r2 pc)"
  by (simp add: removePieceFromGame_def Let_def split: option.splits)

lemma claimSquare_twice_players:
  "players (claimSquare (claimSquare rm a) b)
     = players (foldl (\<lambda>r sq. case board rm sq of None \<Rightarrow> r
                                 | Some pc \<Rightarrow> removePieceFromGame r pc) rm [a, b])"
proof -
  define r1 where "r1 = (case board rm a of None \<Rightarrow> rm | Some pc \<Rightarrow> removePieceFromGame rm pc)"
  have p1: "players (claimSquare rm a) = players r1" and o1: "pieceObjs (claimSquare rm a) = pieceObjs r1"
    and b1: "board (claimSquare rm a) = board rm"
    by (simp_all add: claimSquare_fields r1_def split: option.splits)
  have "players (claimSquare (claimSquare rm a) b)
      = players (case board rm b of None \<Rightarrow> claimSquare rm a
                 | Some pc \<Rightarrow> removePieceFromGame (claimSquare rm a) pc)"
    by (simp add: claimSquare_fields(4) b1)
  also have "\<dots> = players (case board rm b of None \<Rightarrow> r1 | Some pc \<Rightarrow> removePieceFromGame r1 pc)"
  proof (cases "board rm b")
    case None
    with p1 show ?thesis by simp
  next
    case (Some pc)
    with removePiece_players_cong[OF p1 o1, of pc] show ?thesis by simp
  qed
  finally show ?thesis
    unfolding r1_def by simp
qed

text \<open>
  C5. A shrink event collects the squares of the outer ring of the board that are not yet
  danger zones, in row-major order, without repetition. With \<open>n\<close> candidates it picks none
  when \<open>n = 0\<close>, one when \<open>n\<close> is 1 or 2 (the loop bound is read again after the first
  \<^verbatim>\<open>splice\<close>), and two otherwise: the first is the candidate at index
  \<^verbatim>\<open>Math.floor(Math.random() * n)\<close>, the second the candidate at index
  \<^verbatim>\<open>Math.floor(Math.random() * (n - 1))\<close> of the list without the first pick. The picks are
  different squares of the ring outside the former danger zones; a candidate index \<open>j\<close> is
  drawn exactly when the random number falls in the interval from \<open>j / n\<close> to
  \<open>(j + 1) / n\<close>, an interval of the same length for every candidate. The danger zones
  after the event are the former ones and the picks; the board cells and the piece objects
  are untouched; the players table is the one left by \<^verbatim>\<open>removePieceFromGame\<close> run, in order,
  on the piece standing on each pick, so that such a piece is no longer in its owner's
  list while the other pieces of the owner stay. When every square of the outer ring is a
  danger zone, the shrink event changes nothing.
\<close>

theorem shrinkBoard_selects:
  fixes rm :: room and rs :: "nat \<Rightarrow> rnd" and k :: nat
  defines "bs \<equiv> borderSquares (dangerZones rm)"
  defines "j1 \<equiv> nat (randomInt (rs k) (int (length bs)))"
  defines "bs1 \<equiv> take j1 bs @ drop (Suc j1) bs"
  defines "j2 \<equiv> nat (randomInt (rs (k + 1)) (int (length bs1)))"
  defines "sel \<equiv> (if bs = [] then [] else if length bs < 3 then [bs ! j1] else [bs ! j1, bs1 ! j2])"
  shows "\<exists>rm'. shrinkBoard rm rs k = (rm', k + length sel)
      \<and> set bs = {sq. onRing sq \<and> inBounds sq \<and> sq \<notin> dangerZones rm} \<and> distinct bs
      \<and> distinct sel \<and> length sel \<le> 2
      \<and> (\<forall>sq \<in> set sel. onRing sq \<and> inBounds sq \<and> sq \<notin> dangerZones rm)
      \<and> dangerZones rm' = dangerZones rm \<union> set sel
      \<and> board rm' = board rm \<and> pieceObjs rm' = pieceObjs rm
      \<and> players rm' = players (foldl (\<lambda>r sq. case board rm sq of None \<Rightarrow> r
                                                  | Some pc \<Rightarrow> removePieceFromGame r pc) rm sel)
      \<and> (\<forall>sq \<in> set sel. \<forall>pc. board rm sq = Some pc \<longrightarrow> removedFromOwner rm' pc)
      \<and> (\<forall>j < length bs. (j1 = j) =
            (real j / real (length bs) \<le> Rep_rnd (rs k)
             \<and> Rep_rnd (rs k) < (real j + 1) / real (length bs)))
      \<and> (\<forall>j < length bs1. (j2 = j) =
            (real j / real (length bs1) \<le> Rep_rnd (rs (k + 1))
             \<and> Rep_rnd (rs (k + 1)) < (real j + 1) / real (length bs1)))
      \<and> ((\<forall>sq. onRing sq \<and> inBounds sq \<longrightarrow> sq \<in> dangerZones rm) \<longrightarrow> rm' = rm)"
proof -
  define rm' where "rm' = fst (shrinkBoard rm rs k)"
  have unroll: "shrinkBoard rm rs k =
     (if bs = [] then (rm, k)
      else if length bs < 3 then (claimSquare rm (bs ! j1), k + 1)
      else (claimSquare (claimSquare rm (bs ! j1)) (bs1 ! j2), k + 2))"
    unfolding shrinkBoard_def bs_def[symmetric]
    by (rule shrinkLoop_unroll) (simp_all only: j1_def bs1_def j2_def)
  have bset: "set bs = {sq. onRing sq \<and> inBounds sq \<and> sq \<notin> dangerZones rm}"
    unfolding bs_def borderSquares_set by auto
  have dbs: "distinct bs"
    unfolding bs_def by (rule borderSquares_distinct)
  have res: "shrinkBoard rm rs k = (rm', k + length sel)"
    unfolding rm'_def unroll sel_def by simp
  have j1lt: "j1 < length bs" if "bs \<noteq> []"
    using randomInt_bounds[of "int (length bs)" "rs k"] that unfolding j1_def by auto
  have l1: "length bs1 = length bs - 1" if "bs \<noteq> []"
    using j1lt[OF that] by (simp add: bs1_def)
  have j2lt: "j2 < length bs1" if "\<not> length bs < 3"
  proof -
    from that have "bs \<noteq> []" by auto
    from l1[OF this] that have "0 < length bs1" by simp
    then show ?thesis
      using randomInt_bounds[of "int (length bs1)" "rs (k + 1)"] unfolding j2_def by auto
  qed
  have sub1: "set bs1 \<subseteq> set bs" and notin: "bs ! j1 \<notin> set bs1" if "bs \<noteq> []"
    using nth_remove_in[OF j1lt[OF that]] distinct_remove_nth[OF dbs j1lt[OF that]]
    by (simp_all add: bs1_def)
  have selsub: "set sel \<subseteq> set bs"
  proof (cases "bs = []")
    case True
    then show ?thesis by (simp add: sel_def)
  next
    case False
    show ?thesis
    proof (cases "length bs < 3")
      case True
      with False j1lt show ?thesis by (simp add: sel_def)
    next
      case long: False
      from j2lt[OF this] have "bs1 ! j2 \<in> set bs1" by simp
      with sub1[OF False] j1lt[OF False] False long show ?thesis
        by (auto simp: sel_def)
    qed
  qed
  have dsel: "distinct sel"
  proof (cases "\<not> bs = [] \<and> \<not> length bs < 3")
    case False
    then show ?thesis by (auto simp: sel_def)
  next
    case True
    then have "bs1 ! j2 \<in> set bs1" using j2lt by simp
    with notin True have "bs ! j1 \<noteq> bs1 ! j2" by metis
    with True show ?thesis by (simp add: sel_def)
  qed
  have lsel: "length sel \<le> 2"
    by (simp add: sel_def)
  have dz: "dangerZones rm' = dangerZones rm \<union> set sel"
    and bd: "board rm' = board rm" and po: "pieceObjs rm' = pieceObjs rm"
    unfolding rm'_def unroll sel_def by (auto simp: claimSquare_fields)
  have pl: "players rm' = players (foldl (\<lambda>r sq. case board rm sq of None \<Rightarrow> r
                                                  | Some pc \<Rightarrow> removePieceFromGame r pc) rm sel)"
  proof (cases "bs = []")
    case True
    then show ?thesis
      unfolding rm'_def unroll sel_def by simp
  next
    case False
    show ?thesis
    proof (cases "length bs < 3")
      case True
      with False show ?thesis
        unfolding rm'_def unroll sel_def by (simp add: claimSquare_fields(4))
    next
      case long: False
      with False show ?thesis
        unfolding rm'_def unroll sel_def by (simp add: claimSquare_twice_players)
    qed
  qed
  have u1: "(j1 = j) = (real j / real (length bs) \<le> Rep_rnd (rs k)
             \<and> Rep_rnd (rs k) < (real j + 1) / real (length bs))" if "j < length bs" for j
  proof -
    from that have pos: "0 < int (length bs)" by auto
    have nn: "0 \<le> randomInt (rs k) (int (length bs))"
      using randomInt_bounds[OF pos] by simp
    have "(j1 = j) = (randomInt (rs k) (int (length bs)) = int j)"
      unfolding j1_def using nn by auto
    also have "\<dots> = (real j / real (length bs) \<le> Rep_rnd (rs k)
             \<and> Rep_rnd (rs k) < (real j + 1) / real (length bs))"
      using randomInt_interval[OF pos, of "rs k" "int j"] by simp
    finally show ?thesis .
  qed
  have u2: "(j2 = j) = (real j / real (length bs1) \<le> Rep_rnd (rs (k + 1))
             \<and> Rep_rnd (rs (k + 1)) < (real j + 1) / real (length bs1))" if "j < length bs1" for j
  proof -
    from that have pos: "0 < int (length bs1)" by auto
    have nn: "0 \<le> randomInt (rs (k + 1)) (int (length bs1))"
      using randomInt_bounds[OF pos] by simp
    have "(j2 = j) = (randomInt (rs (k + 1)) (int (length bs1)) = int j)"
      unfolding j2_def using nn by auto
    also have "\<dots> = (real j / real (length bs1) \<le> Rep_rnd (rs (k + 1))
             \<and> Rep_rnd (rs (k + 1)) < (real j + 1) / real (length bs1))"
      using randomInt_interval[OF pos, of "rs (k + 1)" "int j"] by simp
    finally show ?thesis .
  qed
  have full: "rm' = rm" if "\<forall>sq. onRing sq \<and> inBounds sq \<longrightarrow> sq \<in> dangerZones rm"
  proof -
    have "set bs = {}"
      using that unfolding bset by auto
    then have "bs = []" by simp
    then show ?thesis
      unfolding rm'_def unroll by simp
  qed
  have ring: "\<forall>sq \<in> set sel. onRing sq \<and> inBounds sq \<and> sq \<notin> dangerZones rm"
    using selsub unfolding bset by auto
  have gone: "\<forall>sq \<in> set sel. \<forall>pc. board rm sq = Some pc \<longrightarrow> removedFromOwner rm' pc"
  proof -
    have "shrinkLoop rm bs 0 rs k = (rm', k + length sel)"
      using res by (simp add: shrinkBoard_def bs_def)
    from shrinkLoop_sel[OF this dbs]
    obtain sel' where s': "set sel' \<subseteq> set bs" "dangerZones rm' = dangerZones rm \<union> set sel'"
      "\<forall>sq \<in> set sel'. \<forall>pc. board rm sq = Some pc \<longrightarrow> removedFromOwner rm' pc"
      by (elim exE conjE) (rule that; assumption)
    have "set sel' = set sel"
      using s'(1,2) selsub dz unfolding bset by blast
    with s'(3) show ?thesis by simp
  qed
  have u1': "\<forall>j < length bs. (j1 = j) =
            (real j / real (length bs) \<le> Rep_rnd (rs k)
             \<and> Rep_rnd (rs k) < (real j + 1) / real (length bs))"
    using u1 by blast
  have u2': "\<forall>j < length bs1. (j2 = j) =
            (real j / real (length bs1) \<le> Rep_rnd (rs (k + 1))
             \<and> Rep_rnd (rs (k + 1)) < (real j + 1) / real (length bs1))"
    using u2 by blast
  have full': "(\<forall>sq. onRing sq \<and> inBounds sq \<longrightarrow> sq \<in> dangerZones rm) \<longrightarrow> rm' = rm"
    using full by blast
  show ?thesis
    by (rule exI[of _ rm']) (intro conjI; fact res bset dbs dsel lsel ring dz bd po pl gone u1' u2' full')
qed

lemma borderSquares_three:
  assumes "dz = {(0, 1)}"
  shows "\<exists>rest. borderSquares dz = (0, 0) # (0, 2) # (0, 3) # rest"
proof -
  define ys where "ys = [0..199::int]"
  define P where "P = (\<lambda>p::coord. onRing p \<and> p \<notin> dz)"
  have a: "[0..199::int] = 0 # [1..199]"
    by (simp add: upto_rec1[of 0 199])
  have "\<exists>more. ys = 0 # 1 # 2 # 3 # more"
    unfolding ys_def
    by (simp add: upto_rec1[of 0 199] upto_rec1[of 1 199] upto_rec1[of 2 199] upto_rec1[of 3 199]
        del: upto_rec_numeral)
  then obtain more where y4: "ys = 0 # 1 # 2 # 3 # more"
    by blast
  have "borderSquares dz = filter P (List.product [0..199] ys)"
    by (simp add: borderSquares_def BOARD_SIZE_def P_def ys_def)
  also have "\<dots> = filter P (map (Pair 0) ys) @ filter P (List.product [1..199] ys)"
    by (simp add: a)
  also have "filter P (map (Pair 0) ys)
      = (0, 0) # (0, 2) # (0, 3) # filter P (map (Pair 0) more)"
    unfolding y4 by (simp add: P_def assms onRing_def)
  finally show ?thesis by simp
qed

theorem shrinkBoard_selects_witness:
  "\<exists>rm'. shrinkBoard ringRoom zeroDraws 0 = (rm', 2)
      \<and> dangerZones rm' = dangerZones ringRoom \<union> {(0, 0), (0, 2)}
      \<and> map (\<lambda>kp. (fst kp, alive (snd kp), pieces (snd kp))) (players rm')
          = [(''a'', True, [10, 11]), (''b'', True, [13, 14]), (''c'', False, [])]"
proof -
  have dzr: "dangerZones ringRoom = {(0, 1)}"
    by (simp add: ringRoom_def demoRoom_def)
  obtain rest where bs: "borderSquares (dangerZones ringRoom) = (0, 0) # (0, 2) # (0, 3) # rest"
    using borderSquares_three[OF dzr] by blast
  have z: "nat (randomInt (zeroDraws i) n) = 0" for i n
    by (simp add: zeroDraws_def randomInt.rep_eq rndOf.rep_eq)
  have b: "board ringRoom (0, 0) = Some 15" "board ringRoom (0, 2) = Some 12"
    by (simp_all add: ringRoom_def demoRoom_def)
  have pl: "map (\<lambda>kp. (fst kp, alive (snd kp), pieces (snd kp)))
         (players (removePieceFromGame (removePieceFromGame ringRoom 15) 12))
      = [(''a'', True, [10, 11]), (''b'', True, [13, 14]), (''c'', False, [])]"
    by (simp add: removePieceFromGame_def ringRoom_def demoRoom_def demoObjs_def mkPlayer_def
        mkPiece_def)
  from shrinkBoard_selects[of ringRoom zeroDraws 0, unfolded bs]
  have "\<exists>rm'. shrinkBoard ringRoom zeroDraws 0 = (rm', 2)
      \<and> dangerZones rm' = dangerZones ringRoom \<union> {(0, 0), (0, 2)}
      \<and> players rm' = players (removePieceFromGame (removePieceFromGame ringRoom 15) 12)"
    by (elim exE conjE) (simp add: z b)
  with pl show ?thesis by auto
qed

text \<open>An invariant of the selection loop holds after it when every round keeps it.\<close>

lemma shrinkLoop_invariant:
  assumes "shrinkLoop rm bs i rs k = (rm', k')" and "P rm"
    and "\<And>r sq. P r \<Longrightarrow> sq \<in> set bs \<Longrightarrow> P (claimSquare r sq)"
  shows "P rm'"
  using assms
proof (induction rm bs i rs k arbitrary: rm' k' rule: shrinkLoop.induct)
  case (1 rm bs i rs k)
  show ?case
  proof (cases "i < min 2 (length bs)")
    case False
    with "1.prems"(1) have "rm' = rm"
      by (subst (asm) shrinkLoop.simps) (simp del: min_less_iff_conj)
    with "1.prems"(2) show ?thesis by simp
  next
    case True
    define j where "j = nat (randomInt (rs k) (int (length bs)))"
    define bs' where "bs' = take j bs @ drop (Suc j) bs"
    have len: "0 < length bs" using True by auto
    have jlt: "j < length bs"
      using randomInt_bounds[of "int (length bs)" "rs k"] len unfolding j_def by linarith
    have rec: "shrinkLoop (claimSquare rm (bs ! j)) bs' (i + 1) rs (k + 1) = (rm', k')"
      using "1.prems"(1) True
      by (subst (asm) shrinkLoop.simps) (simp add: Let_def j_def bs'_def del: min_less_iff_conj)
    have sub: "set bs' \<subseteq> set bs"
      unfolding bs'_def using nth_remove_in[OF jlt] .
    have P1: "P (claimSquare rm (bs ! j))"
      using "1.prems"(2,3) jlt by simp
    show ?thesis
      using "1.IH"[OF True j_def refl bs'_def rec P1] "1.prems"(3) sub by blast
  qed
qed

lemma claimSquare_empty:
  "board rm sq = None \<Longrightarrow> claimSquare rm sq = rm\<lparr>dangerZones := insert sq (dangerZones rm)\<rparr>"
  by (simp add: claimSquare_def)

lemma borderSquares_first_split:
  "(0, 0) \<notin> dz \<Longrightarrow> \<exists>rest. borderSquares dz = (0, 0) # rest"
  by (simp add: borderSquares_def BOARD_SIZE_def onRing_def upto_rec1[of 0 199])

subsection \<open>Win detection\<close>

lemma duel_shrink:
  "\<exists>rm'. shrinkTick duelRoom zeroDraws = (rm', [(ToRoom, TimerUpdate 1 (dangerZones rm'))])
      \<and> map (\<lambda>kp. (fst kp, alive (snd kp), pieces (snd kp))) (players rm')
           = [(''a'', True, [10, 11, 12]), (''c'', False, [])]
      \<and> phase rm' = Playing \<and> liveIntervals rm' = {0}"
proof -
  define rm1 where "rm1 = duelRoom\<lparr>shrinkTimer := 0\<rparr>"
  obtain rest where bs: "borderSquares (dangerZones rm1) = (0, 0) # rest"
    using borderSquares_first_split[of "dangerZones rm1"] by (auto simp: rm1_def duelRoom_def)
  have dr: "distinct ((0, 0) # rest)" and ring: "\<forall>sq \<in> set rest. onRing sq"
    using borderSquares_distinct[of "dangerZones rm1"] borderSquares_set[of "dangerZones rm1"]
    unfolding bs by auto
  define rm2 where "rm2 = claimSquare rm1 (0, 0)"
  have pl2: "map (\<lambda>kp. (fst kp, alive (snd kp), pieces (snd kp))) (players rm2)
           = [(''a'', True, [10, 11, 12]), (''c'', False, [])]"
    and ph2: "phase rm2 = Playing" and li2: "liveIntervals rm2 = {0}"
    and b2: "board rm2 = board duelRoom"
    by (simp_all add: rm2_def rm1_def claimSquare_def removePieceFromGame_def duelRoom_def
        demoObjs_def mkPlayer_def mkPiece_def)
  obtain rm3 k3 where l: "shrinkLoop rm2 rest (Suc 0) zeroDraws (Suc 0) = (rm3, k3)"
    by (cases "shrinkLoop rm2 rest (Suc 0) zeroDraws (Suc 0)") auto
  have z: "nat (randomInt (zeroDraws 0) n) = 0" for n
    by (simp add: zeroDraws_def randomInt.rep_eq rndOf.rep_eq)
  have sb: "shrinkBoard rm1 zeroDraws 0 = (rm3, k3)"
    unfolding shrinkBoard_def bs
    by (subst shrinkLoop.simps) (simp add: z Let_def rm2_def[symmetric] l)
  have empty: "board rm2 sq = None" if "sq \<in> set rest" for sq
  proof -
    have "sq \<noteq> (0, 0)" and "onRing sq" using that dr ring by auto
    then show ?thesis
      by (auto simp: b2 duelRoom_def onRing_def BOARD_SIZE_def)
  qed
  have "players rm3 = players rm2 \<and> phase rm3 = phase rm2 \<and> liveIntervals rm3 = liveIntervals rm2
      \<and> board rm3 = board rm2"
    by (rule shrinkLoop_invariant[OF l, where P = "\<lambda>r. players r = players rm2 \<and> phase r = phase rm2
          \<and> liveIntervals r = liveIntervals rm2 \<and> board r = board rm2"])
       (simp_all add: claimSquare_empty empty)
  moreover have st: "shrinkTimer duelRoom = 1" "phase duelRoom = Playing"
    by (simp_all add: duelRoom_def)
  moreover have "duelRoom\<lparr>shrinkTimer := shrinkTimer duelRoom - 1\<rparr> = rm1"
    by (simp add: rm1_def st)
  moreover have "shrinkTimer rm1 = 0"
    by (simp add: rm1_def)
  ultimately show ?thesis
    using sb pl2 ph2 li2
    by (simp add: shrinkTick_def Let_def)
qed

lemma duel_removal:
  "\<exists>rm'. removalCheck duelRoom ''c'' = Inr (rm', [(ToRoom, PlayerRemoved ''c'')])
      \<and> map (\<lambda>kp. (fst kp, alive (snd kp), pieces (snd kp))) (players rm')
           = [(''a'', True, [10, 11, 12])]
      \<and> phase rm' = Playing \<and> liveIntervals rm' = {0}"
  by (simp add: removalCheck_def removePlayer_def clearOrigin_def duelRoom_def demoObjs_def
      mkPlayer_def mkPiece_def inBounds_def BOARD_SIZE_def Let_def)

lemma length_alivePlayers:
  "length (alivePlayers rm) =
     length (filter (\<lambda>t. fst (snd t) \<and> snd (snd t) \<noteq> [])
       (map (\<lambda>kp. (fst kp, alive (snd kp), pieces (snd kp))) (players rm)))"
  by (simp add: alivePlayers_def filter_map comp_def)

text \<open>
  C2, at the failing input. In \<open>duelRoom\<close> the shrink tick removes the last piece of \<open>c\<close>,
  and the removal check deletes the disconnected \<open>c\<close>: either way one player with pieces
  is left, and yet the room stays in phase \<open>Playing\<close>, the shrink interval stays live
  and no \<^verbatim>\<open>game_ended\<close> is sent. Only the \<^verbatim>\<open>move_piece\<close> handler calls \<^verbatim>\<open>checkGameEnd\<close>.
\<close>

theorem win_detection_not_run:
  "(\<exists>rm'. shrinkTick duelRoom zeroDraws = (rm', [(ToRoom, TimerUpdate 1 (dangerZones rm'))])
      \<and> length (alivePlayers rm') = 1 \<and> phase rm' = Playing \<and> liveIntervals rm' = {0})
   \<and> (\<exists>rm'. removalCheck duelRoom ''c'' = Inr (rm', [(ToRoom, PlayerRemoved ''c'')])
      \<and> length (alivePlayers rm') = 1 \<and> phase rm' = Playing \<and> liveIntervals rm' = {0})"
proof -
  from duel_shrink obtain r1 where
    "shrinkTick duelRoom zeroDraws = (r1, [(ToRoom, TimerUpdate 1 (dangerZones r1))])"
    "length (alivePlayers r1) = 1" "phase r1 = Playing" "liveIntervals r1 = {0}"
    by (auto simp: length_alivePlayers)
  moreover from duel_removal obtain r2 where
    "removalCheck duelRoom ''c'' = Inr (r2, [(ToRoom, PlayerRemoved ''c'')])"
    "length (alivePlayers r2) = 1" "phase r2 = Playing" "liveIntervals r2 = {0}"
    by (auto simp: length_alivePlayers)
  ultimately show ?thesis by blast
qed

subsection \<open>Spawn placement\<close>

lemma sqrt_less_20: "sqrt (real_of_int x) < 20 \<longleftrightarrow> x < 400"
proof -
  have "sqrt 400 = 20" by (rule real_sqrt_unique) simp_all
  then have "sqrt (real_of_int x) < 20 \<longleftrightarrow> sqrt (real_of_int x) < sqrt 400" by simp
  also have "\<dots> \<longleftrightarrow> real_of_int x < 400" by (rule real_sqrt_less_iff)
  also have "\<dots> \<longleftrightarrow> x < 400" by linarith
  finally show ?thesis .
qed

lemma tooClose_iff:
  "tooClose r c ps \<longleftrightarrow> (\<exists>q \<in> set ps. sqrt (real_of_int ((r - fst q)\<^sup>2 + (c - snd q)\<^sup>2)) < 20)"
  by (induction ps) (auto simp: minDistance_def)

lemma tooClose_squares:
  "tooClose r c ps \<longleftrightarrow> (\<exists>q \<in> set ps. (r - fst q)\<^sup>2 + (c - snd q)\<^sup>2 < 400)"
  by (simp only: tooClose_iff sqrt_less_20)

lemma placeAttempts_Some:
  "placeAttempts rs k ps a = (Some p, k') \<Longrightarrow>
     5 \<le> fst p \<and> fst p < 195 \<and> 5 \<le> snd p \<and> snd p < 195 \<and> \<not> tooClose (fst p) (snd p) ps"
proof (induction rs k ps a rule: placeAttempts.induct)
  case (1 rs k positions attempts)
  show ?case
  proof (cases "attempts < maxAttempts")
    case False
    with "1.prems" show ?thesis
      by (subst (asm) placeAttempts.simps) simp
  next
    case True
    define r where "r = randomInt (rs k) (BOARD_SIZE - 10) + 5"
    define c where "c = randomInt (rs (k + 1)) (BOARD_SIZE - 10) + 5"
    have rb: "5 \<le> r \<and> r < 195" and cb: "5 \<le> c \<and> c < 195"
      using randomInt_bounds[of "BOARD_SIZE - 10" "rs k"]
        randomInt_bounds[of "BOARD_SIZE - 10" "rs (k + 1)"]
      by (auto simp: r_def c_def BOARD_SIZE_def)
    show ?thesis
    proof (cases "tooClose r c positions")
      case False
      with "1.prems" True have "p = (r, c)"
        by (subst (asm) placeAttempts.simps) (simp add: Let_def r_def c_def)
      with False rb cb show ?thesis by simp
    next
      case tc: True
      with "1.prems" True have "placeAttempts rs (k + 2) positions (attempts + 1) = (Some p, k')"
        by (subst (asm) placeAttempts.simps) (simp add: Let_def r_def c_def)
      with "1.IH"[OF True r_def c_def] tc show ?thesis by simp
    qed
  qed
qed

lemma placeAttempts_total: "\<exists>res k'. placeAttempts rs k ps a = (res, k')"
  by (cases "placeAttempts rs k ps a") auto

lemma fallbackSpawn_line:
  "inBounds (fallbackSpawn r1 r2)
   \<and> (fst (fallbackSpawn r1 r2) = 5 \<or> fst (fallbackSpawn r1 r2) = 195
      \<or> snd (fallbackSpawn r1 r2) = 5 \<or> snd (fallbackSpawn r1 r2) = 195)"
  using randomInt_bounds[of BOARD_SIZE r2]
  by (auto simp: fallbackSpawn_def Let_def inBounds_def BOARD_SIZE_def)

lemma acceptedSpawn_inBounds: "acceptedSpawn rs prev p \<Longrightarrow> inBounds p"
  using fallbackSpawn_line by (auto simp: acceptedSpawn_def inBounds_def BOARD_SIZE_def)

lemma generateSpawnFrom_spec:
  "generateSpawnFrom rs k n acc = (ps, k') \<Longrightarrow>
     \<exists>new. ps = acc @ new \<and> length new = n
        \<and> (\<forall>i<n. acceptedSpawn rs (acc @ take i new) (new ! i))"
proof (induction n arbitrary: k acc)
  case 0
  then show ?case by simp
next
  case (Suc n)
  obtain res k1 where pa: "placeAttempts rs k acc 0 = (res, k1)"
    using placeAttempts_total by blast
  define p where "p = (case res of Some q \<Rightarrow> q | None \<Rightarrow> fallbackSpawn (rs k1) (rs (k1 + 1)))"
  define k2 where "k2 = (case res of Some q \<Rightarrow> k1 | None \<Rightarrow> k1 + 2)"
  have rec: "generateSpawnFrom rs k2 n (acc @ [p]) = (ps, k')"
    using Suc.prems pa by (auto simp: p_def k2_def split: option.splits)
  have acc: "acceptedSpawn rs acc p"
  proof (cases res)
    case None
    then show ?thesis
      using pa fallbackSpawn_line[of "rs k1" "rs (k1 + 1)"]
      by (auto simp: acceptedSpawn_def p_def)
  next
    case (Some q)
    then have "p = q" by (simp add: p_def)
    with Some pa placeAttempts_Some[of rs k acc 0 q k1] show ?thesis
      unfolding acceptedSpawn_def tooClose_iff
      by (intro disjI1) (auto simp: not_less)
  qed
  from Suc.IH[OF rec] obtain new where new: "ps = (acc @ [p]) @ new" "length new = n"
    "\<forall>i<n. acceptedSpawn rs ((acc @ [p]) @ take i new) (new ! i)"
    by blast
  have "\<forall>i<Suc n. acceptedSpawn rs (acc @ take i (p # new)) ((p # new) ! i)"
  proof (intro allI impI)
    fix i assume "i < Suc n"
    then show "acceptedSpawn rs (acc @ take i (p # new)) ((p # new) ! i)"
      using acc new(3) by (cases i) auto
  qed
  with new(1,2) show ?case
    by (intro exI[of _ "p # new"]) simp
qed

text \<open>
  C9. \<^verbatim>\<open>generateSpawnPositions\<close> returns exactly one position per player, each on the
  board. Each position was reached in one of two ways: the attempt loop accepted it
  within its budget, and then it lies in \<open>[5, 195)\<close> on both axes at Euclidean distance at
  least 20 from every position accepted before; or the budget ran out and the position
  is the fallback point, taken as it is, on one of the lines row 5, row 195, column 5,
  column 195.
\<close>

theorem generateSpawnPositions_spec:
  "length (fst (generateSpawnPositions rs k n)) = n
   \<and> (\<forall>p \<in> set (fst (generateSpawnPositions rs k n)). inBounds p)
   \<and> (\<forall>i<n. acceptedSpawn rs (take i (fst (generateSpawnPositions rs k n)))
                (fst (generateSpawnPositions rs k n) ! i))"
proof -
  obtain ps k' where g: "generateSpawnFrom rs k n [] = (ps, k')"
    by (cases "generateSpawnFrom rs k n []") auto
  from generateSpawnFrom_spec[OF g] have
    len: "length ps = n" and ok: "\<forall>i<n. acceptedSpawn rs (take i ps) (ps ! i)"
    by auto
  have "\<forall>p \<in> set ps. inBounds p"
    using len ok acceptedSpawn_inBounds by (metis in_set_conv_nth)
  with len ok g show ?thesis
    by (simp add: generateSpawnPositions_def)
qed

lemma demo_spawn: "generateSpawnPositions demoDraws 0 2 = ([(5, 52), (100, 147)], 4)"
proof -
  have d: "randomInt (demoDraws 0) 190 = 0" "randomInt (demoDraws (Suc 0)) 190 = 47"
    "randomInt (demoDraws 2) 190 = 95" "randomInt (demoDraws 3) 190 = 142"
    by (simp_all add: demoDraws_def randomInt.rep_eq rndOf.rep_eq)
  have s: "Suc (Suc 0) = 2" "Suc 2 = 3" "Suc 3 = 4" by simp_all
  have p1: "placeAttempts demoDraws 0 [] 0 = (Some (5, 52), 2)"
    by (subst placeAttempts.simps) (simp add: maxAttempts_def BOARD_SIZE_def d Let_def)
  have p2: "placeAttempts demoDraws 2 [(5, 52)] 0 = (Some (100, 147), 4)"
    by (subst placeAttempts.simps)
       (simp add: maxAttempts_def BOARD_SIZE_def d s Let_def tooClose_squares)
  have "generateSpawnFrom demoDraws 0 (Suc (Suc 0)) [] = ([(5, 52), (100, 147)], 4)"
    by (simp add: p1 p2)
  then show ?thesis
    by (simp add: generateSpawnPositions_def s)
qed

theorem generateSpawnPositions_spec_witness:
  "fst (generateSpawnPositions demoDraws 0 2) = [(5, 52), (100, 147)]
   \<and> inBounds (5, 52) \<and> inBounds (100, 147)
   \<and> acceptedSpawn demoDraws [] (5, 52) \<and> acceptedSpawn demoDraws [(5, 52)] (100, 147)"
proof -
  have h: "\<forall>i<2. acceptedSpawn demoDraws (take i [(5, 52), (100, 147)]) ([(5, 52), (100, 147)] ! i)"
    using generateSpawnPositions_spec[of demoDraws 0 2] by (simp add: demo_spawn)
  have "acceptedSpawn demoDraws [] (5, 52)"
    using h[rule_format, of 0] by simp
  moreover have "acceptedSpawn demoDraws [(5, 52)] (100, 147)"
    using h[rule_format, of 1] by simp
  ultimately show ?thesis
    by (simp add: demo_spawn inBounds_def BOARD_SIZE_def)
qed

subsection \<open>The room invariant is kept by every operation\<close>

lemma set_update_cases:
  "x \<in> set (AList.update k v al) \<Longrightarrow> x = (k, v) \<or> x \<in> set al"
  by (induction al) (auto split: if_splits)

lemma removePiece_frame:
  "removePieceFromGame rm c = rm\<lparr>players := players (removePieceFromGame rm c)\<rparr>"
  by (simp add: removePieceFromGame_def Let_def split: option.splits)

lemma removePiece_fields [simp]:
  "phase (removePieceFromGame rm c) = phase rm"
  "nextObj (removePieceFromGame rm c) = nextObj rm"
  "timeouts (removePieceFromGame rm c) = timeouts rm"
  "clock (removePieceFromGame rm c) = clock rm"
  "liveIntervals (removePieceFromGame rm c) = liveIntervals rm"
  "shrinkInterval (removePieceFromGame rm c) = shrinkInterval rm"
  "woods (removePieceFromGame rm c) = woods rm"
  by (simp_all add: removePieceFromGame_def Let_def split: option.splits)

text \<open>An entry after a removal is an entry from before, or the owner's entry with a
  filtered list, marked dead when the list became empty.\<close>

lemma removePiece_entry:
  assumes "kp' \<in> set (players (removePieceFromGame rm c))"
  shows "kp' \<in> set (players rm)
     \<or> (\<exists>pl. (fst kp', pl) \<in> set (players rm)
          \<and> set (pieces (snd kp')) \<subseteq> set (pieces pl)
          \<and> alive (snd kp') = (alive pl \<and> pieces (snd kp') \<noteq> []))"
proof (cases "map_of (players rm) (playerId (pieceObjs rm c))")
  case None
  with assms show ?thesis by (simp add: removePieceFromGame_def)
next
  case (Some pl)
  then have in_pl: "(playerId (pieceObjs rm c), pl) \<in> set (players rm)"
    by (rule map_of_SomeD)
  from assms Some show ?thesis
    using in_pl
    by (auto simp: removePieceFromGame_def Let_def dest!: set_update_cases split: if_splits)
qed

lemma removePiece_roomInv:
  assumes "roomInv rm" and "phase rm \<noteq> Lobby"
  shows "roomInv (removePieceFromGame rm c)"
proof -
  have d: "distinct (map fst (players (removePieceFromGame rm c)))"
    using assms(1) by (simp add: roomInv_def players_removePiece_keys)
  have o: "ownedPieces (removePieceFromGame rm c)"
    using assms(1) removePiece_entry[of _ rm c]
    unfolding roomInv_def ownedPieces_def
    by (fastforce simp: subset_iff)
  have b: "boardAllocated (removePieceFromGame rm c)"
    using assms(1) by (simp add: roomInv_def boardAllocated_def)
  have a: "aliveIffPieces (removePieceFromGame rm c)"
    unfolding aliveIffPieces_def
  proof
    fix kp' assume "kp' \<in> set (players (removePieceFromGame rm c))"
    from removePiece_entry[OF this] assms show "(\<not> alive (snd kp')) = (pieces (snd kp') = [])"
      unfolding roomInv_def aliveIffPieces_def by fastforce
  qed
  have t: "cooldownsPending (removePieceFromGame rm c)"
    using assms(1) by (simp add: roomInv_def cooldownsPending_def)
  show ?thesis
    using d o b a t assms(2) by (simp add: roomInv_def)
qed

lemma cooldownTargets_append [simp]:
  "cooldownTargets (ts @ us) = cooldownTargets ts @ cooldownTargets us"
  by (simp add: cooldownTargets_def)

lemma cooldownTargets_simps [simp]:
  "cooldownTargets [] = []"
  "cooldownTargets ((d, CooldownExpiry q) # ts) = q # cooldownTargets ts"
  "cooldownTargets ((d, RemovalCheck k) # ts) = cooldownTargets ts"
  by (simp_all add: cooldownTargets_def)

lemmas inv_defs = roomInv_def ownedPieces_def boardAllocated_def aliveIffPieces_def
  cooldownsPending_def lobbyClean_def

lemma clearOrigin_roomInv:
  "roomInv rm \<Longrightarrow> roomInv (clearOrigin rm pc)"
  by (auto simp: clearOrigin_def inv_defs)

lemma clearOrigin_fields [simp]:
  "phase (clearOrigin rm pc) = phase rm"
  "nextObj (clearOrigin rm pc) = nextObj rm"
  "timeouts (clearOrigin rm pc) = timeouts rm"
  "pieceObjs (clearOrigin rm pc) = pieceObjs rm"
  "players (clearOrigin rm pc) = players rm"
  "clock (clearOrigin rm pc) = clock rm"
  by (simp_all add: clearOrigin_def)

lemma handleCapture_roomInv:
  "roomInv rm \<Longrightarrow> phase rm \<noteq> Lobby \<Longrightarrow> roomInv (handleCapture rm r c)"
  by (simp add: handleCapture_def removePiece_roomInv split: option.splits)

lemma handleCapture_fields [simp]:
  "phase (handleCapture rm r c) = phase rm"
  "nextObj (handleCapture rm r c) = nextObj rm"
  "timeouts (handleCapture rm r c) = timeouts rm"
  "pieceObjs (handleCapture rm r c) = pieceObjs rm"
  "board (handleCapture rm r c) = board rm"
  "clock (handleCapture rm r c) = clock rm"
  by (simp_all add: handleCapture_def split: option.splits)

lemma movePieceTo_roomInv:
  assumes "roomInv rm" and "phase rm \<noteq> Lobby" and "pc < nextObj rm" and "inBounds (r, c)"
  shows "roomInv (movePieceTo rm pc r c)"
proof -
  have "ownedPieces (movePieceTo rm pc r c)"
    using assms by (auto simp: movePieceTo_def roomInv_def ownedPieces_def)
  moreover have "boardAllocated (movePieceTo rm pc r c)"
    using assms by (auto simp: movePieceTo_def roomInv_def boardAllocated_def)
  moreover have "aliveIffPieces (movePieceTo rm pc r c)"
    using assms by (auto simp: movePieceTo_def roomInv_def aliveIffPieces_def)
  moreover have "cooldownsPending (movePieceTo rm pc r c)"
    using assms by (auto simp: movePieceTo_def roomInv_def cooldownsPending_def)
  ultimately show ?thesis
    using assms(1,2) by (simp add: roomInv_def) (simp add: movePieceTo_def)
qed

lemma movePieceTo_fields [simp]:
  "phase (movePieceTo rm pc r c) = phase rm"
  "nextObj (movePieceTo rm pc r c) = nextObj rm"
  "timeouts (movePieceTo rm pc r c) = timeouts rm"
  "players (movePieceTo rm pc r c) = players rm"
  "clock (movePieceTo rm pc r c) = clock rm"
  "piece_type (pieceObjs (movePieceTo rm pc r c) q) = piece_type (pieceObjs rm q)"
  "canMove (pieceObjs (movePieceTo rm pc r c) q) = canMove (pieceObjs rm q)"
  by (simp_all add: movePieceTo_def)

lemma setCooldown_roomInv:
  assumes "roomInv rm" and "pc < nextObj rm"
    and "piece_type (pieceObjs rm pc) \<noteq> King \<longrightarrow> pc \<notin> set (cooldownTargets (timeouts rm))"
  shows "roomInv (setCooldown rm pc)"
proof (cases "piece_type (pieceObjs rm pc) = King")
  case True
  with assms(1) show ?thesis by (simp add: setCooldown_def)
next
  case False
  have "ownedPieces (setCooldown rm pc)"
    using assms False by (auto simp: setCooldown_def roomInv_def ownedPieces_def)
  moreover have "boardAllocated (setCooldown rm pc)"
    using assms False by (auto simp: setCooldown_def roomInv_def boardAllocated_def)
  moreover have "phase (setCooldown rm pc) \<noteq> Lobby \<longrightarrow> aliveIffPieces (setCooldown rm pc)"
    using assms False by (auto simp: setCooldown_def roomInv_def aliveIffPieces_def)
  moreover have "phase (setCooldown rm pc) = Lobby \<longrightarrow> lobbyClean (setCooldown rm pc)"
    using assms False by (auto simp: setCooldown_def roomInv_def lobbyClean_def)
  moreover have "cooldownsPending (setCooldown rm pc)"
    using assms False by (auto simp: setCooldown_def roomInv_def cooldownsPending_def)
  moreover have "distinct (map fst (players (setCooldown rm pc)))"
    using assms(1) False by (simp add: setCooldown_def roomInv_def)
  ultimately show ?thesis
    by (simp add: roomInv_def)
qed

lemma setCooldown_fields [simp]:
  "phase (setCooldown rm pc) = phase rm"
  "nextObj (setCooldown rm pc) = nextObj rm"
  "players (setCooldown rm pc) = players rm"
  "board (setCooldown rm pc) = board rm"
  "clock (setCooldown rm pc) = clock rm"
  by (simp_all add: setCooldown_def)

lemma executeMove_roomInv:
  assumes inv: "roomInv rm" and ph: "phase rm \<noteq> Lobby" and al: "pc < nextObj rm"
    and cm: "canMove (pieceObjs rm pc) \<or> piece_type (pieceObjs rm pc) = King"
    and ex: "executeMove rm pc r c = Inr rm'"
  shows "roomInv rm' \<and> phase rm' = phase rm"
proof -
  define rm3 where "rm3 = movePieceTo (handleCapture (clearOrigin rm pc) r c) pc r c"
  have ib: "inBounds (r, c)" and res: "rm' = setCooldown rm3 pc"
    using ex by (auto simp: executeMove_def rm3_def split: if_splits)
  have i3: "roomInv rm3"
    unfolding rm3_def
    by (intro movePieceTo_roomInv handleCapture_roomInv clearOrigin_roomInv)
       (use inv ph al ib in simp_all)
  have nt: "piece_type (pieceObjs rm3 pc) \<noteq> King \<longrightarrow> pc \<notin> set (cooldownTargets (timeouts rm3))"
    using inv cm by (auto simp: rm3_def roomInv_def cooldownsPending_def)
  have "roomInv (setCooldown rm3 pc)"
    by (rule setCooldown_roomInv[OF i3 _ nt]) (simp add: rm3_def al)
  then show ?thesis
    using ph by (simp add: res rm3_def)
qed

lemma checkGameEnd_roomInv:
  assumes "roomInv rm" and "phase rm \<noteq> Lobby"
  shows "roomInv (fst (checkGameEnd rm)) \<and> phase (fst (checkGameEnd rm)) \<noteq> Lobby"
  using assms
  by (auto simp: checkGameEnd_def Let_def clearShrinkInterval_def inv_defs split: option.splits)

lemma claimSquare_roomInv:
  assumes "roomInv rm" and "phase rm \<noteq> Lobby"
  shows "roomInv (claimSquare rm sq) \<and> phase (claimSquare rm sq) = phase rm"
proof -
  define rm1 where "rm1 = rm\<lparr>dangerZones := insert sq (dangerZones rm)\<rparr>"
  have "roomInv rm1" and "phase rm1 \<noteq> Lobby"
    using assms
    by (auto simp: rm1_def roomInv_def ownedPieces_def boardAllocated_def aliveIffPieces_def
        cooldownsPending_def)
  then show ?thesis
    using removePiece_roomInv[of rm1]
    by (auto simp: claimSquare_def Let_def rm1_def[symmetric] split: option.splits)
      (simp_all add: rm1_def)
qed

lemma shrinkBoard_roomInv:
  assumes "roomInv rm" and "phase rm \<noteq> Lobby" and "shrinkBoard rm rs k = (rm', k')"
  shows "roomInv rm' \<and> phase rm' = phase rm"
proof -
  have "roomInv rm' \<and> phase rm' = phase rm \<and> phase rm' \<noteq> Lobby"
    by (rule shrinkLoop_invariant[OF assms(3)[unfolded shrinkBoard_def],
          where P = "\<lambda>r. roomInv r \<and> phase r = phase rm \<and> phase r \<noteq> Lobby"])
       (use assms claimSquare_roomInv in auto)
  then show ?thesis by simp
qed

lemma shrinkTick_roomInv:
  assumes "roomInv rm"
  shows "roomInv (fst (shrinkTick rm rs))"
proof (cases "phase rm = Playing")
  case False
  with assms show ?thesis
    by (auto simp: shrinkTick_def clearShrinkInterval_def roomInv_def ownedPieces_def
        boardAllocated_def aliveIffPieces_def cooldownsPending_def lobbyClean_def
        split: option.splits)
next
  case True
  define rm1 where "rm1 = rm\<lparr>shrinkTimer := shrinkTimer rm - 1\<rparr>"
  have i1: "roomInv rm1" and p1: "phase rm1 \<noteq> Lobby"
    using assms True
    by (auto simp: rm1_def roomInv_def ownedPieces_def boardAllocated_def aliveIffPieces_def
        cooldownsPending_def)
  obtain rm2 k2 where sb: "shrinkBoard rm1 rs 0 = (rm2, k2)"
    by (cases "shrinkBoard rm1 rs 0") auto
  from shrinkBoard_roomInv[OF i1 p1 sb] p1 have "roomInv (rm2\<lparr>shrinkTimer := 1\<rparr>)"
    by (auto simp: roomInv_def ownedPieces_def boardAllocated_def aliveIffPieces_def
        cooldownsPending_def)
  with i1 show ?thesis
    using True sb by (simp add: shrinkTick_def Let_def rm1_def[symmetric])
qed

subsection \<open>Lifecycle handlers keep the invariant\<close>

lemma foldl_clear_board:
  "foldl clearOrigin rm ps
     = rm\<lparr>board := (\<lambda>sq. if sq \<in> (\<lambda>pc. (row (pieceObjs rm pc), col (pieceObjs rm pc))) ` set ps
                         then None else board rm sq)\<rparr>"
proof (induction ps arbitrary: rm)
  case Nil
  then show ?case by simp
next
  case (Cons p ps)
  have "foldl clearOrigin rm (p # ps) = foldl clearOrigin (clearOrigin rm p) ps"
    by simp
  also have "\<dots> = (clearOrigin rm p)\<lparr>board :=
      (\<lambda>sq. if sq \<in> (\<lambda>pc. (row (pieceObjs (clearOrigin rm p) pc), col (pieceObjs (clearOrigin rm p) pc))) ` set ps
            then None else board (clearOrigin rm p) sq)\<rparr>"
    by (rule Cons.IH)
  also have "\<dots> = rm\<lparr>board := (\<lambda>sq. if sq \<in> (\<lambda>pc. (row (pieceObjs rm pc), col (pieceObjs rm pc))) ` set (p # ps)
                         then None else board rm sq)\<rparr>"
    by (auto simp: clearOrigin_def fun_eq_iff)
  finally show ?case .
qed

lemma set_delete_subset: "x \<in> set (AList.delete k al) \<Longrightarrow> x \<in> set al"
  by (induction al) (auto split: if_splits)

lemma removePlayer_roomInv:
  assumes "roomInv rm" and "removePlayer rm k = Inr rm'"
  shows "roomInv rm' \<and> phase rm' = phase rm"
proof (cases "map_of (players rm) k")
  case None
  with assms show ?thesis by (simp add: removePlayer_def)
next
  case (Some pl)
  define cleared where "cleared = (\<lambda>sq. if sq \<in> (\<lambda>pc. (row (pieceObjs rm pc), col (pieceObjs rm pc))) ` set (pieces pl)
                         then None else board rm sq)"
  define rm2 where "rm2 = rm\<lparr>board := cleared, players := AList.delete k (players rm)\<rparr>"
  have i2: "roomInv rm2"
  proof -
    have "distinct (map fst (players rm2))"
      using assms(1) by (simp add: rm2_def roomInv_def distinct_delete)
    moreover have "ownedPieces rm2"
      using assms(1) by (auto simp: rm2_def roomInv_def ownedPieces_def dest!: set_delete_subset)
    moreover have "boardAllocated rm2"
      using assms(1) by (auto simp: rm2_def cleared_def roomInv_def boardAllocated_def split: if_splits)
    moreover have "phase rm2 \<noteq> Lobby \<longrightarrow> aliveIffPieces rm2"
      using assms(1) by (auto simp: rm2_def roomInv_def aliveIffPieces_def dest!: set_delete_subset)
    moreover have "phase rm2 = Lobby \<longrightarrow> lobbyClean rm2"
      using assms(1) by (auto simp: rm2_def cleared_def roomInv_def lobbyClean_def dest!: set_delete_subset)
    moreover have "cooldownsPending rm2"
      using assms(1) by (simp add: rm2_def roomInv_def cooldownsPending_def)
    ultimately show ?thesis by (simp add: roomInv_def)
  qed
  have res: "rm' = rm2 \<or> (\<exists>kp rest. players rm2 = kp # rest
      \<and> rm' = rm2\<lparr>players := (fst kp, (snd kp)\<lparr>isAdmin := True\<rparr>) # rest,
                   admin := Some (player_id (snd kp))\<rparr>)"
    using assms(2) Some
    by (auto simp: removePlayer_def Let_def foldl_clear_board rm2_def cleared_def
        split: if_splits list.splits)
  then show ?thesis
  proof
    assume "rm' = rm2"
    with i2 show ?thesis by (simp add: rm2_def)
  next
    assume "\<exists>kp rest. players rm2 = kp # rest
      \<and> rm' = rm2\<lparr>players := (fst kp, (snd kp)\<lparr>isAdmin := True\<rparr>) # rest,
                   admin := Some (player_id (snd kp))\<rparr>"
    then obtain kp rest where p: "players rm2 = kp # rest"
      and r: "rm' = rm2\<lparr>players := (fst kp, (snd kp)\<lparr>isAdmin := True\<rparr>) # rest,
                   admin := Some (player_id (snd kp))\<rparr>"
      by blast
    have "roomInv rm'"
      using i2 p unfolding r inv_defs by auto
    then show ?thesis by (simp add: r rm2_def)
  qed
qed

lemma removalCheck_roomInv:
  assumes "roomInv rm" and "removalCheck rm k = Inr (rm', ems)"
  shows "roomInv rm'"
  using assms removePlayer_roomInv[of rm k]
  by (auto simp: removalCheck_def split: option.splits if_splits sum.splits)

lemma resetGame_roomInv:
  assumes "roomInv rm"
  shows "roomInv (resetGame rm rs)"
proof -
  have "map fst (map (\<lambda>kp. (fst kp, (snd kp)\<lparr>pieces := [], alive := True\<rparr>)) (players rm))
      = map fst (players rm)"
    by (simp add: comp_def)
  then show ?thesis
    using assms
    by (auto simp: resetGame_def clearShrinkInterval_def createBoard_def inv_defs comp_def
        split: option.splits)
qed

lemma reset_game_roomInv:
  "roomInv rm \<Longrightarrow> roomInv (fst (reset_game rm sp rs))"
  by (auto simp: reset_game_def resetGame_roomInv split: option.splits)

lemma update_entry_roomInv:
  assumes "roomInv rm" and "map_of (players rm) k = Some pl"
    and "pieces pl' = pieces pl" and "alive pl' = alive pl"
  shows "roomInv (rm\<lparr>players := AList.update k pl' (players rm)\<rparr>)"
proof -
  have in_pl: "(k, pl) \<in> set (players rm)"
    using assms(2) by (rule map_of_SomeD)
  have "distinct (map fst (AList.update k pl' (players rm)))"
    using assms(1) by (simp add: roomInv_def distinct_update)
  then show ?thesis
    using assms in_pl unfolding inv_defs
    by (auto dest!: set_update_cases)
qed

lemma disconnect_roomInv:
  "roomInv rm \<Longrightarrow> roomInv (fst (disconnect rm sp))"
proof -
  assume i: "roomInv rm"
  have t: "roomInv (r\<lparr>timeouts := timeouts r @ [(d, RemovalCheck k)]\<rparr>)" if "roomInv r" for r d k
    using that by (auto simp: inv_defs)
  show ?thesis
    using i
    by (auto simp: disconnect_def split: option.splits
        intro!: t[of "r\<lparr>players := p\<rparr>" for r p, simplified] update_entry_roomInv)
qed

lemma join_room_roomInv:
  assumes "roomInv rm"
  shows "roomInv (fst (join_room rm sock nm wa pw sess newId))"
proof (cases "wa \<and> pw \<noteq> ADMIN_PASSWORD")
  case True
  with assms show ?thesis by (simp add: join_room_def)
next
  case False
  show ?thesis
  proof (cases "find (\<lambda>kp. sessionId (snd kp) = sess) (players rm)")
    case (Some kp)
    then have "kp \<in> set (players rm)"
      by (auto simp: find_Some_iff)
    then have m: "map_of (players rm) (fst kp) = Some (snd kp)"
      using assms by (simp add: roomInv_def)
    have "roomInv (rm\<lparr>players := AList.update (fst kp)
                    ((snd kp)\<lparr>socketId := sock, connected_pl := True\<rparr>) (players rm)\<rparr>)"
      by (rule update_entry_roomInv[OF assms m]) simp_all
    then have "roomInv (rm\<lparr>players := AList.update (fst kp)
                    ((snd kp)\<lparr>socketId := sock, connected_pl := True\<rparr>) (players rm),
                lastActivity := clock rm\<rparr>)"
      by (simp add: inv_defs)
    with False Some show ?thesis by (auto simp: join_room_def)
  next
    case None
    show ?thesis
    proof (cases "length (players rm) \<ge> MAX_PLAYERS \<or> phase rm \<noteq> Lobby")
      case True
      with False None assms show ?thesis by (auto simp: join_room_def)
    next
      case lob: False
      define pl where "pl = \<lparr>player_id = newId, sessionId = sess, socketId = sock,
                         name = nm, isAdmin = (wa \<and> admin rm = None),
                         color = getPlayerColor (length (players rm)), pieces = [],
                         alive = True, connected_pl = True, joinedAt = clock rm,
                         disconnectedAt = None\<rparr>"
      have d: "distinct (map fst (AList.update newId pl (players rm)))"
        using assms by (simp add: roomInv_def distinct_update)
      have "roomInv (rm\<lparr>players := AList.update newId pl (players rm)\<rparr>)"
        using assms lob d unfolding inv_defs
        by (auto dest!: set_update_cases simp: pl_def)
      then have "roomInv (rm\<lparr>admin := a, players := AList.update newId pl (players rm),
                            lastActivity := clock rm\<rparr>)" for a
        by (simp add: inv_defs)
      moreover have "roomInv (rm\<lparr>players := AList.update newId pl (players rm),
                            lastActivity := clock rm\<rparr>)"
        using \<open>roomInv (rm\<lparr>players := AList.update newId pl (players rm)\<rparr>)\<close>
        by (simp add: inv_defs)
      ultimately show ?thesis
        using False None lob
        by (auto simp: join_room_def Let_def pl_def[symmetric])
    qed
  qed
qed

lemma cooldownTargets_remove_nth:
  assumes "n < length ts" and "distinct (cooldownTargets ts)"
  shows "distinct (cooldownTargets (take n ts @ drop (Suc n) ts))
     \<and> set (cooldownTargets (take n ts @ drop (Suc n) ts)) \<subseteq> set (cooldownTargets ts)
     \<and> (\<forall>q. snd (ts ! n) = CooldownExpiry q \<longrightarrow>
           q \<in> set (cooldownTargets ts)
           \<and> q \<notin> set (cooldownTargets (take n ts @ drop (Suc n) ts)))"
proof -
  have "ts = take n ts @ [ts ! n] @ drop (Suc n) ts"
    using id_take_nth_drop[OF assms(1)] by simp
  then have "cooldownTargets ts
      = cooldownTargets (take n ts) @ cooldownTargets [ts ! n] @ cooldownTargets (drop (Suc n) ts)"
    by (metis cooldownTargets_append)
  moreover have "cooldownTargets [ts ! n] = [q]" if "snd (ts ! n) = CooldownExpiry q" for q
    using that by (cases "ts ! n") simp
  ultimately show ?thesis
    using assms(2) by auto
qed

lemma cooldownExpired_roomInv:
  assumes "roomInv rm" and "n < length (timeouts rm)" and "snd (timeouts rm ! n) = CooldownExpiry pc"
  shows "roomInv (fst (cooldownExpired
            (rm\<lparr>timeouts := take n (timeouts rm) @ drop (Suc n) (timeouts rm)\<rparr>) pc))"
proof -
  have dt: "distinct (cooldownTargets (timeouts rm))"
    using assms(1) by (simp add: roomInv_def cooldownsPending_def)
  note r = cooldownTargets_remove_nth[OF assms(2) dt]
  have "pc \<in> set (cooldownTargets (timeouts rm))"
    using assms(3) r by blast
  then have al: "pc < nextObj rm"
    using assms(1) by (auto simp: roomInv_def cooldownsPending_def)
  show ?thesis
    using assms(1,3) r al unfolding inv_defs cooldownExpired_def
    by (auto simp: subset_iff)
qed

lemma timeout_removed_roomInv:
  assumes "roomInv rm" and "n < length (timeouts rm)"
  shows "roomInv (rm\<lparr>timeouts := take n (timeouts rm) @ drop (Suc n) (timeouts rm)\<rparr>)"
proof -
  have dt: "distinct (cooldownTargets (timeouts rm))"
    using assms(1) by (simp add: roomInv_def cooldownsPending_def)
  note r = cooldownTargets_remove_nth[OF assms(2) dt]
  show ?thesis
    using assms(1) r unfolding inv_defs
    by (auto simp: subset_iff)
qed

lemma createPlayerPieces_props:
  "p \<in> set (createPlayerPieces pid r c x) \<Longrightarrow>
     playerId p = pid \<and> inBounds (row p, col p) \<and> canMove p"
  by (auto simp: createPlayerPieces_def Let_def inBounds_def BOARD_SIZE_def)

lemma createPlayerPieces_length: "length (createPlayerPieces pid r c x) = 16"
  by (simp add: createPlayerPieces_def pieceTypes_def)

lemma placePiece_fields [simp]:
  "players (placePiece rm pc) = players rm"
  "pieceObjs (placePiece rm pc) = pieceObjs rm"
  "nextObj (placePiece rm pc) = nextObj rm"
  "timeouts (placePiece rm pc) = timeouts rm"
  "phase (placePiece rm pc) = phase rm"
  "woods (placePiece rm pc) = woods rm"
  "dangerZones (placePiece rm pc) = dangerZones rm"
  "clock (placePiece rm pc) = clock rm"
  by (simp_all add: placePiece_def)

lemma foldl_placePiece_fields [simp]:
  "players (foldl placePiece rm refs) = players rm"
  "pieceObjs (foldl placePiece rm refs) = pieceObjs rm"
  "nextObj (foldl placePiece rm refs) = nextObj rm"
  "timeouts (foldl placePiece rm refs) = timeouts rm"
  "phase (foldl placePiece rm refs) = phase rm"
  "woods (foldl placePiece rm refs) = woods rm"
  "dangerZones (foldl placePiece rm refs) = dangerZones rm"
  "clock (foldl placePiece rm refs) = clock rm"
  by (induction refs arbitrary: rm) simp_all

lemma foldl_placePiece_board:
  "board (foldl placePiece rm refs) sq = Some pc \<Longrightarrow> board rm sq = Some pc \<or> pc \<in> set refs"
proof (induction refs arbitrary: rm)
  case Nil
  then show ?case by simp
next
  case (Cons a refs)
  from Cons.prems have "board (foldl placePiece (placePiece rm a) refs) sq = Some pc"
    by simp
  from Cons.IH[OF this] show ?case
    by (auto simp: placePiece_def split: if_splits)
qed

text \<open>One round of the spawn loop keeps the loop invariant.\<close>

lemma spawn_round:
  fixes spawn :: coord and x :: rnd
  assumes sp: "spawning rm (kp # rest)"
  defines "new \<equiv> createPlayerPieces (fst kp) (fst spawn) (snd spawn) x"
  defines "rm1 \<equiv> fst (allocPieces rm new)"
  defines "refs \<equiv> snd (allocPieces rm new)"
  defines "rm2 \<equiv> rm1\<lparr>players := AList.update (fst kp) ((snd kp)\<lparr>pieces := refs\<rparr>) (players rm1)\<rparr>"
  shows "spawning (foldl placePiece rm2 refs) rest"
proof -
  have refs: "refs = [nextObj rm ..< nextObj rm + 16]"
    and n1: "nextObj rm1 = nextObj rm + 16"
    and old: "\<And>q. q < nextObj rm \<Longrightarrow> pieceObjs rm1 q = pieceObjs rm q"
    and newo: "\<And>q. q \<in> set refs \<Longrightarrow> pieceObjs rm1 q \<in> set new"
    and f1: "players rm1 = players rm" "board rm1 = board rm" "timeouts rm1 = timeouts rm"
      "phase rm1 = phase rm"
    by (auto simp: refs_def rm1_def new_def allocPieces_def createPlayerPieces_length)
  have keys: "map fst (AList.update (fst kp) v (players rm)) = map fst (players rm)" for v
    using sp by (auto simp: spawning_def update_keys image_iff)
  have d: "distinct (map fst (players rm2))"
    using sp by (simp add: rm2_def f1 keys spawning_def)
  have o: "ownedPieces (foldl placePiece rm2 refs)"
    unfolding ownedPieces_def
  proof (intro ballI)
    fix e pc assume e: "e \<in> set (players (foldl placePiece rm2 refs))"
      and pc: "pc \<in> set (pieces (snd e))"
    from e have "e = (fst kp, (snd kp)\<lparr>pieces := refs\<rparr>) \<or> e \<in> set (players rm)"
      by (auto simp: rm2_def f1 dest!: set_update_cases)
    then show "playerId (pieceObjs (foldl placePiece rm2 refs) pc) = fst e
        \<and> inBounds (row (pieceObjs (foldl placePiece rm2 refs) pc),
                     col (pieceObjs (foldl placePiece rm2 refs) pc))
        \<and> pc < nextObj (foldl placePiece rm2 refs)"
    proof
      assume "e = (fst kp, (snd kp)\<lparr>pieces := refs\<rparr>)"
      with pc have "pc \<in> set refs" by simp
      then show ?thesis
        using newo[of pc] createPlayerPieces_props[of "pieceObjs rm1 pc" "fst kp" "fst spawn" "snd spawn" x]
          \<open>e = (fst kp, (snd kp)\<lparr>pieces := refs\<rparr>)\<close>
        by (auto simp: rm2_def n1 refs new_def)
    next
      assume "e \<in> set (players rm)"
      with pc sp have "playerId (pieceObjs rm pc) = fst e
          \<and> inBounds (row (pieceObjs rm pc), col (pieceObjs rm pc)) \<and> pc < nextObj rm"
        by (auto simp: spawning_def ownedPieces_def)
      then show ?thesis
        using old[of pc] by (simp add: rm2_def n1)
    qed
  qed
  have b: "boardAllocated (foldl placePiece rm2 refs)"
    unfolding boardAllocated_def
  proof (intro allI impI)
    fix sq pc assume "board (foldl placePiece rm2 refs) sq = Some pc"
    from foldl_placePiece_board[OF this]
    have "board rm sq = Some pc \<or> pc \<in> set refs"
      by (simp add: rm2_def f1)
    moreover have "pc < nextObj rm" if "board rm sq = Some pc"
      using sp that unfolding spawning_def boardAllocated_def by blast
    ultimately show "pc < nextObj (foldl placePiece rm2 refs)"
      by (auto simp: rm2_def n1 refs)
  qed
  have t: "cooldownsPending (foldl placePiece rm2 refs)"
    using sp old by (auto simp: rm2_def f1 n1 spawning_def cooldownsPending_def)
  have rest: "distinct (map fst rest)" "fst kp \<notin> fst ` set rest"
    "fst ` set rest \<subseteq> fst ` set (players rm2)" "\<forall>e \<in> set rest. alive (snd e)" "alive (snd kp)"
    using sp keys[of "(snd kp)\<lparr>pieces := refs\<rparr>"]
    by (auto simp: spawning_def rm2_def f1 simp flip: set_map)
  have al: "\<forall>e \<in> set (players rm2). alive (snd e)"
    using sp rest(5) by (auto simp: rm2_def f1 spawning_def dest!: set_update_cases)
  have ne: "\<forall>e \<in> set (players rm2). fst e \<notin> fst ` set rest \<longrightarrow> pieces (snd e) \<noteq> []"
  proof (intro ballI impI)
    fix e assume e: "e \<in> set (players rm2)" and nr: "fst e \<notin> fst ` set rest"
    from e have "e = (fst kp, (snd kp)\<lparr>pieces := refs\<rparr>) \<or> e \<in> set (players rm)"
      by (auto simp: rm2_def f1 dest!: set_update_cases)
    then show "pieces (snd e) \<noteq> []"
    proof
      assume "e = (fst kp, (snd kp)\<lparr>pieces := refs\<rparr>)"
      then show ?thesis by (simp add: refs)
    next
      assume in_old: "e \<in> set (players rm)"
      show ?thesis
      proof (cases "fst e = fst kp")
        case True
        have "map_of (players rm2) (fst kp) = Some ((snd kp)\<lparr>pieces := refs\<rparr>)"
          by (simp add: rm2_def f1 update_conv')
        with d e True have "snd e = (snd kp)\<lparr>pieces := refs\<rparr>"
          by (metis map_of_is_SomeI option.inject prod.collapse)
        then show ?thesis by (simp add: refs)
      next
        case False
        with nr in_old sp show ?thesis
          by (auto simp: spawning_def)
      qed
    qed
  qed
  show ?thesis
    using d o b t rest al ne sp
    by (simp add: spawning_def) (simp add: rm2_def f1)
qed

lemma spawnPlayersFrom_spawning:
  "spawning rm rest \<Longrightarrow> length rest \<le> length positions \<Longrightarrow>
     spawning (fst (spawnPlayersFrom rm rest positions rs k)) []"
proof (induction rm rest positions rs k rule: spawnPlayersFrom.induct)
  case (1 rm spawnPositions rs k)
  then show ?case by simp
next
  case (2 rm kp rest rs k)
  then show ?case by simp
next
  case (3 rm kp rest spawn others rs k)
  define new where "new = createPlayerPieces (fst kp) (fst spawn) (snd spawn) (rs k)"
  define rm1 where "rm1 = fst (allocPieces rm new)"
  define refs where "refs = snd (allocPieces rm new)"
  define rm2 where "rm2 = rm1\<lparr>players := AList.update (fst kp) ((snd kp)\<lparr>pieces := refs\<rparr>) (players rm1)\<rparr>"
  have sp: "spawning (foldl placePiece rm2 refs) rest"
    unfolding rm2_def refs_def rm1_def new_def by (rule spawn_round[OF "3.prems"(1)])
  have step: "spawnPlayersFrom rm (kp # rest) (spawn # others) rs k
      = spawnPlayersFrom (foldl placePiece rm2 refs) rest others rs (k + 1)"
    by (simp add: Let_def case_prod_beta rm2_def refs_def rm1_def new_def)
  have "spawning (fst (spawnPlayersFrom (foldl placePiece rm2 refs) rest others rs (k + 1))) []"
    using "3.IH"[of "allocPieces rm new" rm1 refs rm2 "foldl placePiece rm2 refs"] sp "3.prems"(2)
    by (simp add: new_def rm1_def refs_def rm2_def prod_eq_iff)
  then show ?case by (simp only: step)
qed

lemma spawning_done: "spawning rm [] \<Longrightarrow> roomInv rm \<and> phase rm = Playing"
  by (auto simp: spawning_def roomInv_def aliveIffPieces_def)

lemma generateSpawnFrom_length:
  "length (fst (generateSpawnFrom rs k n acc)) = length acc + n"
  using generateSpawnFrom_spec[of rs k n acc] by (cases "generateSpawnFrom rs k n acc") auto

lemma startShrinkTimer_roomInv: "roomInv rm \<Longrightarrow> roomInv (startShrinkTimer rm)"
  by (simp add: startShrinkTimer_def inv_defs)

lemma start_game_roomInv:
  assumes "roomInv rm"
  shows "roomInv (fst (start_game rm sp rs))"
proof (cases "snd (start_game rm sp rs) = [(ToRoom, GameStarted)]")
  case False
  then have "fst (start_game rm sp rs) = rm"
    by (auto simp: start_game_def split: option.splits if_splits)
  with assms show ?thesis by simp
next
  case True
  then have lob: "phase rm = Lobby"
    by (auto simp: start_game_def split: option.splits if_splits)
  define rm0 where "rm0 = rm\<lparr>phase := Playing\<rparr>"
  have s0: "spawning rm0 (players rm0)"
    using assms lob by (auto simp: rm0_def spawning_def inv_defs)
  obtain ps k1 where g: "generateSpawnPositions rs 0 (length (players rm0)) = (ps, k1)"
    by (cases "generateSpawnPositions rs 0 (length (players rm0))") auto
  have len: "length ps = length (players rm0)"
    using generateSpawnFrom_length[of rs 0 "length (players rm0)" "[]"] g
    by (simp add: generateSpawnPositions_def)
  have "spawning (fst (spawnPlayers rm0 rs 0)) []"
    using spawnPlayersFrom_spawning[OF s0, of ps rs k1] len g
    by (simp add: spawnPlayers_def)
  then have "roomInv (startShrinkTimer (fst (spawnPlayers rm0 rs 0)))"
    by (intro startShrinkTimer_roomInv) (simp add: spawning_done)
  moreover have "fst (start_game rm sp rs) = startShrinkTimer (fst (spawnPlayers rm0 rs 0))"
    using True by (auto simp: start_game_def rm0_def split: option.splits if_splits)
  ultimately show ?thesis by simp
qed

lemma findPieceIn_Some:
  "findPieceIn objs al pid = Some pc \<Longrightarrow>
     \<exists>kp \<in> set al. pc \<in> set (pieces (snd kp)) \<and> piece_id (objs pc) = pid"
proof (induction al)
  case Nil
  then show ?case by simp
next
  case (Cons kp al)
  show ?case
  proof (cases "find (\<lambda>p. piece_id (objs p) = pid) (pieces (snd kp))")
    case None
    with Cons show ?thesis by auto
  next
    case (Some q)
    with Cons.prems have "q = pc" by simp
    with Some show ?thesis
      by (auto simp: find_Some_iff)
  qed
qed

lemma findPiece_Some:
  "findPiece rm pid = Some pc \<Longrightarrow>
     \<exists>kp \<in> set (players rm). pc \<in> set (pieces (snd kp)) \<and> piece_id (pieceObjs rm pc) = pid"
  unfolding findPiece_def by (rule findPieceIn_Some)

lemma isValidMove_gate:
  "isValidMove rm pc r c = Inr True \<Longrightarrow>
     canMove (pieceObjs rm pc) \<or> piece_type (pieceObjs rm pc) = King"
  by (auto simp: isValidMove_def split: if_splits)

lemma move_piece_roomInv:
  assumes "roomInv rm" and "move_piece rm sp pid fr fc r c = Inr (rm', ems)"
  shows "roomInv rm'"
proof (cases "ems = [] \<or> ems = [(ToSocket, InvalidMove)]")
  case True
  with assms(2) have "rm' = rm"
    by (auto simp: move_piece_def split: option.splits if_splits sum.splits)
  with assms(1) show ?thesis by simp
next
  case False
  with assms(2) obtain pc rm1 where ph: "phase rm = Playing" and f: "findPiece rm pid = Some pc"
    and v: "isValidMove rm pc r c = Inr True" and ex: "executeMove rm pc r c = Inr rm1"
    and res: "rm' = fst (checkGameEnd rm1)"
    by (auto simp: move_piece_def split: option.splits if_splits sum.splits)
  from findPiece_Some[OF f] assms(1) have al: "pc < nextObj rm"
    by (auto simp: roomInv_def ownedPieces_def)
  from ph have nl: "phase rm \<noteq> Lobby" by simp
  from executeMove_roomInv[OF assms(1) nl al isValidMove_gate[OF v] ex]
  have "roomInv rm1" and "phase rm1 \<noteq> Lobby"
    using nl by simp_all
  then show ?thesis
    unfolding res using checkGameEnd_roomInv by blast
qed

lemma createGameRoom_roomInv: "roomInv (createGameRoom roomId rs now)"
  by (simp add: createGameRoom_def createBoard_def inv_defs)

lemma step_roomInv:
  assumes "roomInv rm" and "step rm a = Some (rm', ems)"
  shows "roomInv rm'"
proof (cases a)
  case (Join x1 x2 x3 x4 x5 x6)
  with assms show ?thesis
    using join_room_roomInv[OF assms(1), of x1 x2 x3 x4 x5 x6] by (auto simp: step_def)
next
  case (StartGame x1 x2)
  with assms show ?thesis
    using start_game_roomInv[OF assms(1), of x1 x2] by (auto simp: step_def)
next
  case (MovePiece x1 x2 x3 x4 x5 x6)
  with assms show ?thesis
    using move_piece_roomInv[OF assms(1), of x1 x2 x3 x4 x5 x6 rm' ems]
    by (auto simp: step_def split: sum.splits)
next
  case (ResetGame x1 x2)
  with assms show ?thesis
    using reset_game_roomInv[OF assms(1), of x1 x2] by (auto simp: step_def)
next
  case (Disconnect x)
  with assms show ?thesis
    using disconnect_roomInv[OF assms(1), of x] by (auto simp: step_def)
next
  case (Elapse ms)
  with assms show ?thesis
    by (auto simp: step_def inv_defs)
next
  case (FireTimeout n)
  with assms(2) have n: "n < length (timeouts rm)"
    by (auto simp: step_def split: if_splits)
  show ?thesis
  proof (cases "snd (timeouts rm ! n)")
    case (CooldownExpiry pc)
    with assms FireTimeout n show ?thesis
      using cooldownExpired_roomInv[OF assms(1) n CooldownExpiry]
      by (auto simp: step_def Let_def split: if_splits)
  next
    case (RemovalCheck k)
    with assms FireTimeout n show ?thesis
      using removalCheck_roomInv[OF timeout_removed_roomInv[OF assms(1) n], of k rm' ems]
      by (auto simp: step_def Let_def split: if_splits sum.splits)
  qed
next
  case (FireInterval h rs)
  with assms show ?thesis
    using shrinkTick_roomInv[OF assms(1), of rs] by (auto simp: step_def split: if_splits)
qed

lemma reachable_roomInv: "reachable rm \<Longrightarrow> roomInv rm"
  by (induction rule: reachable.induct) (auto intro: createGameRoom_roomInv step_roomInv)

subsection \<open>A run of the server\<close>

lemma demoJoined_players:
  "players demoJoined =
     [(''p1'', \<lparr>player_id = ''p1'', sessionId = ''k1'', socketId = ''s1'', name = ''ann'',
               isAdmin = True, color = ''#FF6B6B'', pieces = [], alive = True,
               connected_pl = True, joinedAt = 0, disconnectedAt = None\<rparr>),
      (''p2'', \<lparr>player_id = ''p2'', sessionId = ''k2'', socketId = ''s2'', name = ''bob'',
               isAdmin = False, color = ''#4ECDC4'', pieces = [], alive = True,
               connected_pl = True, joinedAt = 0, disconnectedAt = None\<rparr>)]"
  and demoJoined_fields:
  "phase demoJoined = Lobby" "nextObj demoJoined = 0" "board demoJoined = (\<lambda>_. None)"
  "timeouts demoJoined = []" "clock demoJoined = 0" "dangerZones demoJoined = {}"
  "woods demoJoined = fst (generateWoods zeroDraws 0)"
  "pieceObjs demoJoined = pieceObjs demoLobby"
  by (simp_all add: demoJoined_def demoLobby_def join_room_def createGameRoom_def Let_def
      MAX_PLAYERS_def getPlayerColor_def colors_def createBoard_def)

lemma demoJoined_reachable: "reachable demoJoined"
proof -
  have r0: "reachable demoLobby"
    unfolding demoLobby_def by (rule reachable.fresh)
  define j1 where "j1 = join_room demoLobby ''s1'' ''ann'' True ADMIN_PASSWORD ''k1'' ''p1''"
  have "step demoLobby (Join ''s1'' ''ann'' True ADMIN_PASSWORD ''k1'' ''p1'') = Some (fst j1, snd j1)"
    by (simp add: step_def j1_def)
  from reachable.after[OF r0 this] have r1: "reachable (fst j1)" .
  define j2 where "j2 = join_room (fst j1) ''s2'' ''bob'' False [] ''k2'' ''p2''"
  have "step (fst j1) (Join ''s2'' ''bob'' False [] ''k2'' ''p2'') = Some (fst j2, snd j2)"
    by (simp add: step_def j2_def)
  from reachable.after[OF r1 this] show ?thesis
    by (simp add: demoJoined_def j2_def j1_def)
qed

lemma demoMatch_reachable: "reachable demoMatch"
proof -
  have "step demoJoined (StartGame (Some ''p1'') demoDraws)
      = Some (demoMatch, snd (start_game demoJoined (Some ''p1'') demoDraws))"
    by (simp add: step_def demoMatch_def)
  from reachable.after[OF demoJoined_reachable this] show ?thesis .
qed

lemma demoMatch_players:
  "phase demoMatch = Playing"
  "map (\<lambda>kp. (fst kp, alive (snd kp), pieces (snd kp))) (players demoMatch)
     = [(''p1'', True, [0..<16]), (''p2'', True, [16..<32])]"
  by (simp_all add: demoMatch_def start_game_def demoJoined_players demoJoined_fields
      startShrinkTimer_def spawnPlayers_def demo_spawn[unfolded numeral_2_eq_2] allocPieces_def
      createPlayerPieces_length Let_def)

lemma woodsPatch_zero: "woodsPatch zeroDraws k 0 0 n ws = (ws, k + 2 * n)"
proof (induction n arbitrary: k)
  case 0
  then show ?case by simp
next
  case (Suc n)
  have "woodsSubDraw ws 0 0 (zeroDraws k) (zeroDraws (k + 1)) = ws"
    by (simp add: woodsSubDraw_def woodsOffset_def zeroDraws_def randomInt.rep_eq rndOf.rep_eq)
  then show ?case by (simp add: Suc.IH)
qed

lemma woodsSeeds_zero: "woodsSeeds zeroDraws k n ws = (ws, k + 9 * n)"
proof (induction n arbitrary: k)
  case 0
  then show ?case by simp
next
  case (Suc n)
  have z: "randomInt (zeroDraws i) m = 0" for i m
    by (simp add: zeroDraws_def randomInt.rep_eq rndOf.rep_eq)
  show ?case
    by (simp add: z woodsPatch_zero Suc.IH Let_def)
qed

lemma woods_zero: "fst (generateWoods zeroDraws 0) = {}"
  by (simp add: generateWoods_def woodsSeeds_zero)

lemma createPlayerPieces_nth:
  "q < 16 \<Longrightarrow> createPlayerPieces pid r c x ! q =
     \<lparr>piece_id = (pid, q), piece_type = fst (pieceTypes ! q),
      piece_color = (if randomAboveHalf x then White else Black), playerId = pid,
      row = max 0 (min (BOARD_SIZE - 1) (r + fst (snd (pieceTypes ! q)))),
      col = max 0 (min (BOARD_SIZE - 1) (c + snd (snd (pieceTypes ! q)))),
      canMove = True, cooldownExpires = 0\<rparr>"
proof -
  assume q: "q < 16"
  have len: "length pieceTypes = 16"
    by (simp add: pieceTypes_def)
  show ?thesis
    using q by (simp add: createPlayerPieces_def nth_enumerate_eq case_prod_beta Let_def len)
qed

lemma demoMatch_explicit:
  "players demoMatch =
     [(''p1'', \<lparr>player_id = ''p1'', sessionId = ''k1'', socketId = ''s1'', name = ''ann'',
               isAdmin = True, color = ''#FF6B6B'', pieces = [0..<16], alive = True,
               connected_pl = True, joinedAt = 0, disconnectedAt = None\<rparr>),
      (''p2'', \<lparr>player_id = ''p2'', sessionId = ''k2'', socketId = ''s2'', name = ''bob'',
               isAdmin = False, color = ''#4ECDC4'', pieces = [16..<32], alive = True,
               connected_pl = True, joinedAt = 0, disconnectedAt = None\<rparr>)]"
  "pieceObjs demoMatch =
     (\<lambda>q. if 16 \<le> q \<and> q < 32 then createPlayerPieces ''p2'' 100 147 (demoDraws 5) ! (q - 16)
          else if q < 16 then createPlayerPieces ''p1'' 5 52 (demoDraws 4) ! q
          else pieceObjs demoLobby q)"
  "woods demoMatch = {}" "dangerZones demoMatch = {}" "clock demoMatch = 0"
  "timeouts demoMatch = []" "nextObj demoMatch = 32"
  by (simp_all add: demoMatch_def start_game_def demoJoined_players demoJoined_fields
      startShrinkTimer_def spawnPlayers_def demo_spawn[unfolded numeral_2_eq_2] allocPieces_def
      createPlayerPieces_length Let_def woods_zero fun_eq_iff)

lemma demoMatch_p1:
  "map_of (players demoMatch) ''p1'' =
     Some \<lparr>player_id = ''p1'', sessionId = ''k1'', socketId = ''s1'', name = ''ann'',
               isAdmin = True, color = ''#FF6B6B'', pieces = [0..<16], alive = True,
               connected_pl = True, joinedAt = 0, disconnectedAt = None\<rparr>"
  by (simp add: demoMatch_explicit(1))

lemma demoMatch_piece_ids:
  "q < 16 \<Longrightarrow> piece_id (pieceObjs demoMatch q) = (''p1'', q)"
  "q < 16 \<Longrightarrow> playerId (pieceObjs demoMatch q) = ''p1''"
  "q < 16 \<Longrightarrow> piece_type (pieceObjs demoMatch q) = fst (pieceTypes ! q)"
  "q < 16 \<Longrightarrow> canMove (pieceObjs demoMatch q)"
  by (simp_all add: demoMatch_explicit(2) createPlayerPieces_nth)

lemma upt_16: "[0..<16] = [0, 1, 2, 3, 4, 5, 6, 7, 8, 9, 10, 11, 12, 13, 14, 15]"
  by code_simp

lemma demoMatch_find: "findPiece demoMatch (''p1'', 8) = Some 8"
  by (simp add: findPiece_def demoMatch_explicit(1) demoMatch_piece_ids upt_16)

lemma demoMatch_king: "pieceObjs demoMatch 0 =
     \<lparr>piece_id = (''p1'', 0), piece_type = King,
      piece_color = (if randomAboveHalf (demoDraws 4) then White else Black), playerId = ''p1'',
      row = 5, col = 52, canMove = True, cooldownExpires = 0\<rparr>"
  by (simp add: demoMatch_explicit(2) createPlayerPieces_nth pieceTypes_def BOARD_SIZE_def)

lemma demoMatch_pawn: "piece_type (pieceObjs demoMatch 8) = Pawn"
  by (simp add: demoMatch_piece_ids pieceTypes_def)

lemma demoMatch_valid: "isValidMove demoMatch 8 7 49 = Inr True"
  by (simp add: isValidMove_def BOARD_SIZE_def demoMatch_explicit(3,4) demoMatch_piece_ids
      demoMatch_p1 demoMatch_king chebyshev_def upt_16)

subsection \<open>Dead players and empty piece lists\<close>

lemma aliveIffPieces_players:
  "players r1 = players r2 \<Longrightarrow> aliveIffPieces r1 = aliveIffPieces r2"
  by (simp add: aliveIffPieces_def)

lemma removePiece_aliveIffPieces:
  assumes "aliveIffPieces rm"
  shows "aliveIffPieces (removePieceFromGame rm pc)"
  unfolding aliveIffPieces_def
proof
  fix kp'
  assume "kp' \<in> set (players (removePieceFromGame rm pc))"
  from removePiece_entry[OF this]
  show "(\<not> alive (snd kp')) = (pieces (snd kp') = [])"
  proof
    assume "kp' \<in> set (players rm)"
    with assms show ?thesis by (simp add: aliveIffPieces_def)
  next
    assume "\<exists>pl. (fst kp', pl) \<in> set (players rm)
          \<and> set (pieces (snd kp')) \<subseteq> set (pieces pl)
          \<and> alive (snd kp') = (alive pl \<and> pieces (snd kp') \<noteq> [])"
    then obtain pl where pl: "(fst kp', pl) \<in> set (players rm)"
      "set (pieces (snd kp')) \<subseteq> set (pieces pl)"
      "alive (snd kp') = (alive pl \<and> pieces (snd kp') \<noteq> [])"
      by blast
    from assms pl(1) have old: "(\<not> alive pl) = (pieces pl = [])"
      by (force simp: aliveIffPieces_def)
    show ?thesis
    proof (cases "pieces (snd kp') = []")
      case True
      with pl(3) show ?thesis by simp
    next
      case False
      with pl(2) have "pieces pl \<noteq> []" by auto
      with old pl(3) False show ?thesis by simp
    qed
  qed
qed

lemma executeMove_players:
  "executeMove rm pc r c = Inr rm1 \<Longrightarrow>
     players rm1 = players rm \<or> (\<exists>occ. players rm1 = players (removePieceFromGame rm occ))"
  by (auto simp: executeMove_def clearOrigin_def handleCapture_def movePieceTo_def
      setCooldown_def players_removePiece_board split: if_splits option.splits)

lemma executeMove_aliveIffPieces:
  assumes "aliveIffPieces rm" and "executeMove rm pc r c = Inr rm1"
  shows "aliveIffPieces rm1"
  using executeMove_players[OF assms(2)] assms(1) removePiece_aliveIffPieces[OF assms(1)]
    aliveIffPieces_players by blast

lemma claimSquare_aliveIffPieces:
  assumes "aliveIffPieces rm"
  shows "aliveIffPieces (claimSquare rm sq)"
proof -
  have "aliveIffPieces (rm\<lparr>dangerZones := insert sq (dangerZones rm)\<rparr>)"
    using assms by (simp add: aliveIffPieces_def)
  from removePiece_aliveIffPieces[OF this] this show ?thesis
    by (simp add: claimSquare_def Let_def split: option.splits)
qed

lemma shrinkBoard_aliveIffPieces:
  assumes "aliveIffPieces rm" and "shrinkBoard rm rs k = (rm2, k2)"
  shows "aliveIffPieces rm2"
  by (rule shrinkLoop_invariant[OF assms(2)[unfolded shrinkBoard_def], where P = aliveIffPieces])
     (simp_all add: assms(1) claimSquare_aliveIffPieces)

lemma removePlayer_aliveIffPieces:
  assumes "aliveIffPieces rm" and "removePlayer rm pid = Inr rm3"
  shows "aliveIffPieces rm3"
proof (cases "map_of (players rm) pid")
  case None
  with assms show ?thesis by (simp add: removePlayer_def)
next
  case (Some pl)
  define rm2 where "rm2 = rm\<lparr>board := board (foldl clearOrigin rm (pieces pl)),
                            players := AList.delete pid (players rm)\<rparr>"
  have i2: "aliveIffPieces rm2"
    using assms(1) by (auto simp: rm2_def aliveIffPieces_def dest!: set_delete_subset)
  have res: "rm3 = rm2 \<or> (\<exists>kp rest. players rm2 = kp # rest
      \<and> rm3 = rm2\<lparr>players := (fst kp, (snd kp)\<lparr>isAdmin := True\<rparr>) # rest,
                   admin := Some (player_id (snd kp))\<rparr>)"
    using assms(2) Some
    by (auto simp: removePlayer_def Let_def foldl_clear_board rm2_def
        split: if_splits list.splits)
  then show ?thesis
  proof
    assume "rm3 = rm2"
    with i2 show ?thesis by simp
  next
    assume "\<exists>kp rest. players rm2 = kp # rest
      \<and> rm3 = rm2\<lparr>players := (fst kp, (snd kp)\<lparr>isAdmin := True\<rparr>) # rest,
                   admin := Some (player_id (snd kp))\<rparr>"
    then obtain kp rest where p: "players rm2 = kp # rest"
      and r: "players rm3 = (fst kp, (snd kp)\<lparr>isAdmin := True\<rparr>) # rest"
      by auto
    show ?thesis
      using i2 unfolding aliveIffPieces_def p r by simp
  qed
qed

text \<open>
  C3, as stated, fails: in the lobby, before the start of a match and after a reset in the
  middle of one, the players are alive and have no pieces.
\<close>

theorem alive_without_pieces:
  "reachable demoJoined \<and> phase demoJoined = Lobby
   \<and> (\<exists>kp. kp \<in> set (players demoJoined)
          \<and> \<not> ((\<not> alive (snd kp)) = (pieces (snd kp) = [])))
   \<and> (\<exists>rm ems. step demoMatch (ResetGame (Some ''p1'') zeroDraws) = Some (rm, ems)
          \<and> reachable rm
          \<and> (\<exists>kp. kp \<in> set (players rm)
                \<and> \<not> ((\<not> alive (snd kp)) = (pieces (snd kp) = []))))"
proof -
  have lobby: "\<exists>kp. kp \<in> set (players demoJoined)
          \<and> \<not> ((\<not> alive (snd kp)) = (pieces (snd kp) = []))"
    by (rule exI[of _ "hd (players demoJoined)"]) (simp add: demoJoined_players)
  define res where "res = reset_game demoMatch (Some ''p1'') zeroDraws"
  have st: "step demoMatch (ResetGame (Some ''p1'') zeroDraws) = Some (fst res, snd res)"
    by (simp add: step_def res_def)
  from reachable.after[OF demoMatch_reachable st] have r: "reachable (fst res)" .
  have "map (\<lambda>kp. (fst kp, alive (snd kp), pieces (snd kp))) (players (fst res))
      = [(''p1'', True, []), (''p2'', True, [])]"
    by (simp add: res_def reset_game_def resetGame_def clearShrinkInterval_def
        demoMatch_explicit(1) split: option.splits)
  then obtain kp rest where kp: "players (fst res) = kp # rest" "alive (snd kp)" "pieces (snd kp) = []"
    by (auto simp: map_eq_Cons_conv)
  have "kp \<in> set (players (fst res)) \<and> \<not> ((\<not> alive (snd kp)) = (pieces (snd kp) = []))"
    by (simp add: kp)
  then have "\<exists>kp. kp \<in> set (players (fst res))
          \<and> \<not> ((\<not> alive (snd kp)) = (pieces (snd kp) = []))"
    by (rule exI)
  with st r have "\<exists>rm ems. step demoMatch (ResetGame (Some ''p1'') zeroDraws) = Some (rm, ems)
          \<and> reachable rm
          \<and> (\<exists>kp. kp \<in> set (players rm)
                \<and> \<not> ((\<not> alive (snd kp)) = (pieces (snd kp) = [])))"
    by blast
  with demoJoined_reachable demoJoined_fields(1) lobby show ?thesis
    by (intro conjI)
qed

text \<open>
  C3, amended. In every room a run of the server can reach, a player of a room in the
  lobby phase is alive and has an empty piece list, and a player of a room in another
  phase (during a match and after its end) is dead exactly when its piece list is empty.
  The piece removal, and with it a capture by \<^verbatim>\<open>executeMove\<close>, a shrink event and a player
  removal, each keep the property that every player is dead exactly when its piece list
  is empty.
\<close>

theorem alive_iff_pieces:
  "(reachable rm \<and> kp \<in> set (players rm) \<longrightarrow>
      (if phase rm = Lobby then alive (snd kp) \<and> pieces (snd kp) = []
       else (\<not> alive (snd kp)) = (pieces (snd kp) = [])))
   \<and> (aliveIffPieces rm \<longrightarrow> aliveIffPieces (removePieceFromGame rm occ))
   \<and> (aliveIffPieces rm \<and> executeMove rm pc r c = Inr rm1 \<longrightarrow> aliveIffPieces rm1)
   \<and> (aliveIffPieces rm \<and> shrinkBoard rm rs k = (rm2, k2) \<longrightarrow> aliveIffPieces rm2)
   \<and> (aliveIffPieces rm \<and> removePlayer rm pid = Inr rm3 \<longrightarrow> aliveIffPieces rm3)"
proof -
  have "if phase rm = Lobby then alive (snd kp) \<and> pieces (snd kp) = []
       else (\<not> alive (snd kp)) = (pieces (snd kp) = [])"
    if "reachable rm" "kp \<in> set (players rm)"
    using reachable_roomInv[OF that(1)] that(2)
    by (auto simp: roomInv_def aliveIffPieces_def lobbyClean_def)
  then show ?thesis
    using removePiece_aliveIffPieces executeMove_aliveIffPieces shrinkBoard_aliveIffPieces
      removePlayer_aliveIffPieces by blast
qed

theorem alive_iff_pieces_witness:
  "reachable demoMatch \<and> phase demoMatch \<noteq> Lobby
   \<and> (\<exists>kp. kp \<in> set (players demoMatch) \<and> fst kp = ''p1''
          \<and> pieces (snd kp) = [0..<16] \<and> alive (snd kp))
   \<and> (\<exists>rm1. executeMove demoRoom 15 51 51 = Inr rm1
          \<and> (\<exists>kp. kp \<in> set (players rm1) \<and> fst kp = ''a''
                \<and> pieces (snd kp) = [10, 11] \<and> alive (snd kp)))
   \<and> (\<exists>rm2 k2. shrinkBoard duelRoom zeroDraws 0 = (rm2, k2)
          \<and> (\<exists>kp. kp \<in> set (players rm2) \<and> fst kp = ''c''
                \<and> pieces (snd kp) = [] \<and> \<not> alive (snd kp)))
   \<and> (\<exists>rm3. removePlayer duelRoom ''c'' = Inr rm3
          \<and> (\<exists>kp. kp \<in> set (players rm3) \<and> fst kp = ''a''
                \<and> pieces (snd kp) = [10, 11, 12] \<and> alive (snd kp)))"
proof -
  have use: "(\<not> alive (snd kp)) = (pieces (snd kp) = [])"
    if "aliveIffPieces r" "kp \<in> set (players r)" for r kp
    using that by (simp add: aliveIffPieces_def)
  have match: "\<exists>kp. kp \<in> set (players demoMatch) \<and> fst kp = ''p1''
          \<and> pieces (snd kp) = [0..<16] \<and> alive (snd kp)"
  proof -
    from demoMatch_players(2) obtain kp rest where
      kp: "players demoMatch = kp # rest" "fst kp = ''p1''" "pieces (snd kp) = [0..<16]"
      by (auto simp: map_eq_Cons_conv)
    have mem: "kp \<in> set (players demoMatch)"
      by (simp add: kp(1))
    from alive_iff_pieces[of demoMatch kp] demoMatch_reachable mem demoMatch_players(1) kp(3)
    have "alive (snd kp)" by simp
    with kp(2,3) mem show ?thesis by blast
  qed
  have ia: "aliveIffPieces demoRoom" and id: "aliveIffPieces duelRoom"
    by (simp_all add: aliveIffPieces_def demoRoom_def duelRoom_def mkPlayer_def)
  have capture: "\<exists>rm1. executeMove demoRoom 15 51 51 = Inr rm1
          \<and> (\<exists>kp. kp \<in> set (players rm1) \<and> fst kp = ''a''
                \<and> pieces (snd kp) = [10, 11] \<and> alive (snd kp))"
  proof -
    obtain rm1 where e: "executeMove demoRoom 15 51 51 = Inr rm1"
      by (simp add: executeMove_def inBounds_def BOARD_SIZE_def demo_defs)
    then have "map (\<lambda>kp. (fst kp, pieces (snd kp))) (players rm1)
        = [(''a'', [10, 11]), (''b'', [13, 14]), (''c'', [15])]"
      by (auto simp: executeMove_def clearOrigin_def handleCapture_def movePieceTo_def
          setCooldown_def inBounds_def BOARD_SIZE_def removePieceFromGame_def demo_defs)
    then obtain kp rest where
      kp: "players rm1 = kp # rest" "fst kp = ''a''" "pieces (snd kp) = [10, 11]"
      by (auto simp: map_eq_Cons_conv)
    have mem: "kp \<in> set (players rm1)"
      by (simp add: kp(1))
    from alive_iff_pieces[of demoRoom _ _ 15 51 51 rm1] ia e have "aliveIffPieces rm1"
      by simp
    from use[OF this mem] kp(3) have "alive (snd kp)" by simp
    with e kp(2,3) mem show ?thesis by blast
  qed
  have shrink: "\<exists>rm2 k2. shrinkBoard duelRoom zeroDraws 0 = (rm2, k2)
          \<and> (\<exists>kp. kp \<in> set (players rm2) \<and> fst kp = ''c''
                \<and> pieces (snd kp) = [] \<and> \<not> alive (snd kp))"
  proof -
    have dzr: "dangerZones duelRoom = {(0, 1)}"
      by (simp add: duelRoom_def)
    obtain rest where bs: "borderSquares (dangerZones duelRoom) = (0, 0) # (0, 2) # (0, 3) # rest"
      using borderSquares_three[OF dzr] by blast
    have z: "nat (randomInt (zeroDraws i) n) = 0" for i n
      by (simp add: zeroDraws_def randomInt.rep_eq rndOf.rep_eq)
    define rm2 where "rm2 = claimSquare (claimSquare duelRoom (0, 0)) (0, 2)"
    have s: "shrinkBoard duelRoom zeroDraws 0 = (rm2, 2)"
      unfolding shrinkBoard_def shrinkLoop_unroll[OF refl refl refl] bs
      by (simp add: z rm2_def)
    have "map (\<lambda>kp. (fst kp, pieces (snd kp))) (players rm2) = [(''a'', [10, 11, 12]), (''c'', [])]"
      unfolding rm2_def claimSquare_twice_players
      by (simp add: removePieceFromGame_def duelRoom_def demoObjs_def mkPlayer_def mkPiece_def)
    then obtain ka kc rest' where
      kc: "players rm2 = ka # kc # rest'" "fst kc = ''c''" "pieces (snd kc) = []"
      by (auto simp: map_eq_Cons_conv)
    have mem: "kc \<in> set (players rm2)"
      by (simp add: kc(1))
    from alive_iff_pieces[of duelRoom _ _ _ _ _ _ zeroDraws 0 rm2 2] id s have "aliveIffPieces rm2"
      by simp
    from use[OF this mem] kc(3) have "\<not> alive (snd kc)" by simp
    with s kc(2,3) mem show ?thesis by blast
  qed
  have removal: "\<exists>rm3. removePlayer duelRoom ''c'' = Inr rm3
          \<and> (\<exists>kp. kp \<in> set (players rm3) \<and> fst kp = ''a''
                \<and> pieces (snd kp) = [10, 11, 12] \<and> alive (snd kp))"
  proof -
    obtain rm3 where e: "removePlayer duelRoom ''c'' = Inr rm3"
      by (simp add: removePlayer_def duelRoom_def demoObjs_def mkPlayer_def mkPiece_def
          inBounds_def BOARD_SIZE_def Let_def)
    then have "map (\<lambda>kp. (fst kp, pieces (snd kp))) (players rm3) = [(''a'', [10, 11, 12])]"
      by (auto simp: removePlayer_def clearOrigin_def duelRoom_def demoObjs_def mkPlayer_def
          mkPiece_def inBounds_def BOARD_SIZE_def Let_def)
    then obtain kp rest where
      kp: "players rm3 = kp # rest" "fst kp = ''a''" "pieces (snd kp) = [10, 11, 12]"
      by (auto simp: map_eq_Cons_conv)
    have mem: "kp \<in> set (players rm3)"
      by (simp add: kp(1))
    from alive_iff_pieces[of duelRoom _ _ _ _ _ _ _ _ _ _ "''c''" rm3] id e have "aliveIffPieces rm3"
      by simp
    from use[OF this mem] kp(3) have "alive (snd kp)" by simp
    with e kp(2,3) mem show ?thesis by blast
  qed
  have ph: "phase demoMatch \<noteq> Lobby"
    by (simp add: demoMatch_players(1))
  from demoMatch_reachable ph match capture shrink removal show ?thesis
    by (intro conjI)
qed

subsection \<open>Cooldowns\<close>

text \<open>What a step leaves alone: the objects allocated so far keep their cooldown flag
  and type unless the step is a move or an expiry, and timeouts only go when they fire.\<close>

lemma cooling_frame:
  assumes "cooling rm pc T"
    and "pieceObjs rm' pc = pieceObjs rm pc" and "nextObj rm \<le> nextObj rm'"
    and "set (timeouts rm') \<subseteq> set (timeouts rm) \<union> X"
    and "\<forall>t \<in> X. snd t \<noteq> CooldownExpiry pc"
  shows "cooling rm' pc T"
  using assms unfolding cooling_def by fastforce

lemma join_room_frame:
  "pieceObjs (fst (join_room rm a b c d e f)) = pieceObjs rm"
  "nextObj (fst (join_room rm a b c d e f)) = nextObj rm"
  "timeouts (fst (join_room rm a b c d e f)) = timeouts rm"
  by (auto simp: join_room_def Let_def split: option.splits)

lemma reset_game_frame:
  "pieceObjs (fst (reset_game rm sp rs)) = pieceObjs rm"
  "nextObj (fst (reset_game rm sp rs)) = nextObj rm"
  "timeouts (fst (reset_game rm sp rs)) = timeouts rm"
  by (auto simp: reset_game_def resetGame_def clearShrinkInterval_def split: option.splits)

lemma disconnect_frame:
  "pieceObjs (fst (disconnect rm sp)) = pieceObjs rm"
  "nextObj (fst (disconnect rm sp)) = nextObj rm"
  "set (timeouts (fst (disconnect rm sp)))
     \<subseteq> set (timeouts rm) \<union> {t. \<exists>k. snd t = RemovalCheck k}"
  by (auto simp: disconnect_def split: option.splits)

lemma claimSquare_frame:
  "pieceObjs (claimSquare rm sq) = pieceObjs rm"
  "nextObj (claimSquare rm sq) = nextObj rm"
  "timeouts (claimSquare rm sq) = timeouts rm"
  "clock (claimSquare rm sq) = clock rm"
  by (auto simp: claimSquare_def Let_def split: option.splits)

lemma shrinkBoard_frame:
  assumes "shrinkBoard rm rs k = (rm', k')"
  shows "pieceObjs rm' = pieceObjs rm \<and> nextObj rm' = nextObj rm \<and> timeouts rm' = timeouts rm
     \<and> clock rm' = clock rm"
  by (rule shrinkLoop_invariant[OF assms[unfolded shrinkBoard_def],
        where P = "\<lambda>r. pieceObjs r = pieceObjs rm \<and> nextObj r = nextObj rm
           \<and> timeouts r = timeouts rm \<and> clock r = clock rm"])
     (simp_all add: claimSquare_frame)

lemma shrinkTick_frame:
  "pieceObjs (fst (shrinkTick rm rs)) = pieceObjs rm
   \<and> nextObj (fst (shrinkTick rm rs)) = nextObj rm
   \<and> timeouts (fst (shrinkTick rm rs)) = timeouts rm"
proof -
  obtain rm2 k2 where sb: "shrinkBoard (rm\<lparr>shrinkTimer := shrinkTimer rm - 1\<rparr>) rs 0 = (rm2, k2)"
    by (cases "shrinkBoard (rm\<lparr>shrinkTimer := shrinkTimer rm - 1\<rparr>) rs 0") auto
  from shrinkBoard_frame[OF sb] show ?thesis
    by (auto simp: shrinkTick_def Let_def sb clearShrinkInterval_def split: option.splits)
qed

lemma removePlayer_frame:
  assumes "removePlayer rm k = Inr rm'"
  shows "pieceObjs rm' = pieceObjs rm \<and> nextObj rm' = nextObj rm \<and> timeouts rm' = timeouts rm"
  using assms
  by (auto simp: removePlayer_def Let_def foldl_clear_board split: option.splits if_splits list.splits)

lemma removalCheck_frame:
  assumes "removalCheck rm k = Inr (rm', ems)"
  shows "pieceObjs rm' = pieceObjs rm \<and> nextObj rm' = nextObj rm \<and> timeouts rm' = timeouts rm"
  using assms removePlayer_frame[of rm k]
  by (auto simp: removalCheck_def split: option.splits if_splits sum.splits)

lemma spawnPlayersFrom_frame:
  "(\<forall>q < nextObj rm. pieceObjs (fst (spawnPlayersFrom rm rest ps rs k)) q = pieceObjs rm q)
   \<and> nextObj rm \<le> nextObj (fst (spawnPlayersFrom rm rest ps rs k))
   \<and> timeouts (fst (spawnPlayersFrom rm rest ps rs k)) = timeouts rm
   \<and> clock (fst (spawnPlayersFrom rm rest ps rs k)) = clock rm"
proof (induction rm rest ps rs k rule: spawnPlayersFrom.induct)
  case (3 rm kp rest spawn others rs k)
  define new where "new = createPlayerPieces (fst kp) (fst spawn) (snd spawn) (rs k)"
  define rm1 where "rm1 = fst (allocPieces rm new)"
  define refs where "refs = snd (allocPieces rm new)"
  define rm2 where "rm2 = rm1\<lparr>players := AList.update (fst kp) ((snd kp)\<lparr>pieces := refs\<rparr>) (players rm1)\<rparr>"
  define rm3 where "rm3 = foldl placePiece rm2 refs"
  have step: "spawnPlayersFrom rm (kp # rest) (spawn # others) rs k
      = spawnPlayersFrom rm3 rest others rs (k + 1)"
    by (simp add: Let_def case_prod_beta rm3_def rm2_def refs_def rm1_def new_def)
  have ih: "(\<forall>q < nextObj rm3. pieceObjs (fst (spawnPlayersFrom rm3 rest others rs (k + 1))) q = pieceObjs rm3 q)
   \<and> nextObj rm3 \<le> nextObj (fst (spawnPlayersFrom rm3 rest others rs (k + 1)))
   \<and> timeouts (fst (spawnPlayersFrom rm3 rest others rs (k + 1))) = timeouts rm3
   \<and> clock (fst (spawnPlayersFrom rm3 rest others rs (k + 1))) = clock rm3"
    using "3.IH"[of "allocPieces rm new" rm1 refs rm2 rm3]
    by (simp add: new_def rm1_def refs_def rm2_def rm3_def prod_eq_iff)
  have c3: "clock (foldl placePiece r xs) = clock r" for r xs
    by (induction xs arbitrary: r) (simp_all add: placePiece_def)
  have f3: "nextObj rm \<le> nextObj rm3" "timeouts rm3 = timeouts rm"
    "\<forall>q < nextObj rm. pieceObjs rm3 q = pieceObjs rm q" "clock rm3 = clock rm"
    by (auto simp: rm3_def rm2_def rm1_def allocPieces_def c3)
  show ?case
    unfolding step using ih f3 by auto
qed simp_all

lemma start_game_frame:
  "(\<forall>q < nextObj rm. pieceObjs (fst (start_game rm sp rs)) q = pieceObjs rm q)
   \<and> nextObj rm \<le> nextObj (fst (start_game rm sp rs))
   \<and> timeouts (fst (start_game rm sp rs)) = timeouts rm
   \<and> clock (fst (start_game rm sp rs)) = clock rm"
proof -
  define rm0 where "rm0 = rm\<lparr>phase := Playing\<rparr>"
  obtain ps k1 where g: "generateSpawnPositions rs 0 (length (players rm0)) = (ps, k1)"
    by (cases "generateSpawnPositions rs 0 (length (players rm0))") auto
  have "fst (start_game rm sp rs) = rm
      \<or> fst (start_game rm sp rs) = startShrinkTimer (fst (spawnPlayersFrom rm0 (players rm0) ps rs k1))"
    using g by (auto simp: start_game_def spawnPlayers_def rm0_def split: option.splits)
  then show ?thesis
    using spawnPlayersFrom_frame[of rm0 "players rm0" ps rs k1]
    by (auto simp: startShrinkTimer_def rm0_def)
qed

lemma checkGameEnd_frame:
  "pieceObjs (fst (checkGameEnd rm)) = pieceObjs rm"
  "nextObj (fst (checkGameEnd rm)) = nextObj rm"
  "timeouts (fst (checkGameEnd rm)) = timeouts rm"
  "clock (fst (checkGameEnd rm)) = clock rm"
  by (auto simp: checkGameEnd_def Let_def clearShrinkInterval_def split: option.splits)

text \<open>What \<^verbatim>\<open>executeMove\<close> does to cooldowns: the mover, if not a king, is flagged and gets
  one callback due 5000 ms ahead; nothing else changes.\<close>

lemma executeMove_cooldown:
  assumes "executeMove rm m r c = Inr rm1"
  shows "nextObj rm1 = nextObj rm \<and> clock rm1 = clock rm
     \<and> (\<forall>q. q \<noteq> m \<longrightarrow> pieceObjs rm1 q = pieceObjs rm q)
     \<and> piece_type (pieceObjs rm1 m) = piece_type (pieceObjs rm m)
     \<and> (piece_type (pieceObjs rm m) \<noteq> King \<longrightarrow>
          \<not> canMove (pieceObjs rm1 m)
          \<and> timeouts rm1 = timeouts rm @ [(clock rm + 5000, CooldownExpiry m)])
     \<and> (piece_type (pieceObjs rm m) = King \<longrightarrow>
          canMove (pieceObjs rm1 m) = canMove (pieceObjs rm m) \<and> timeouts rm1 = timeouts rm)"
  using assms
  by (auto simp: executeMove_def setCooldown_def movePieceTo_def split: if_splits)

lemma clock_step:
  assumes "step rm a = Some (rm', ems)"
  shows "clock rm \<le> clock rm'"
proof (cases a)
  case (MovePiece sp pid fr fc r c)
  with assms have mp: "move_piece rm sp pid fr fc r c = Inr (rm', ems)"
    by (auto simp: step_def split: sum.splits)
  then show ?thesis
    using executeMove_cooldown checkGameEnd_frame(4)
    by (auto simp: move_piece_def split: option.splits if_splits sum.splits)
next
  case (FireTimeout n)
  with assms show ?thesis
    using removePlayer_roomInv
    by (auto simp: step_def Let_def cooldownExpired_def removalCheck_def removePlayer_def
        foldl_clear_board split: if_splits callback.splits sum.splits option.splits list.splits)
next
  case (FireInterval h rs)
  obtain rm2 k2 where sb: "shrinkBoard (rm\<lparr>shrinkTimer := shrinkTimer rm - 1\<rparr>) rs 0 = (rm2, k2)"
    by (cases "shrinkBoard (rm\<lparr>shrinkTimer := shrinkTimer rm - 1\<rparr>) rs 0") auto
  from shrinkBoard_frame[OF sb] FireInterval assms show ?thesis
    by (auto simp: step_def shrinkTick_def Let_def sb clearShrinkInterval_def
        split: if_splits option.splits)
next
  case (StartGame sp rs)
  with assms have "rm' = fst (start_game rm sp rs)"
    by (auto simp: step_def)
  then show ?thesis
    using start_game_frame[of rm sp rs] by simp
qed (use assms in \<open>auto simp: step_def join_room_def reset_game_def resetGame_def disconnect_def
      clearShrinkInterval_def Let_def split: option.splits if_splits\<close>)

lemma cooling_step:
  assumes co: "cooling rm pc T" and st: "step rm a = Some (rm', ems)" and cl: "clock rm < T"
  shows "cooling rm' pc T"
proof (cases a)
  case (Join x1 x2 x3 x4 x5 x6)
  with st have "rm' = fst (join_room rm x1 x2 x3 x4 x5 x6)"
    by (auto simp: step_def)
  then show ?thesis
    using co by (intro cooling_frame[OF co, where X = "{}"]) (simp_all add: join_room_frame)
next
  case (StartGame sp rs)
  with st have "rm' = fst (start_game rm sp rs)"
    by (auto simp: step_def)
  then show ?thesis
    using co start_game_frame[of rm sp rs]
    by (intro cooling_frame[OF co, where X = "{}"]) (auto simp: cooling_def)
next
  case (MovePiece sp pid fr fc r c)
  with st have mp: "move_piece rm sp pid fr fc r c = Inr (rm', ems)"
    by (auto simp: step_def split: sum.splits)
  show ?thesis
  proof (cases "rm' = rm")
    case True
    with co show ?thesis by simp
  next
    case False
    with mp obtain m rm1 where v: "isValidMove rm m r c = Inr True"
      and ex: "executeMove rm m r c = Inr rm1" and res: "rm' = fst (checkGameEnd rm1)"
      by (auto simp: move_piece_def split: option.splits if_splits sum.splits)
    from isValidMove_gate[OF v] co have ne: "m \<noteq> pc"
      by (auto simp: cooling_def)
    note e = executeMove_cooldown[OF ex]
    show ?thesis
      unfolding res
      by (rule cooling_frame[OF co, where X = "{(clock rm + 5000, CooldownExpiry m)}"])
         (use e ne in \<open>auto simp: checkGameEnd_frame\<close>)
  qed
next
  case (ResetGame sp rs)
  with st have "rm' = fst (reset_game rm sp rs)"
    by (auto simp: step_def)
  then show ?thesis
    by (intro cooling_frame[OF co, where X = "{}"]) (simp_all add: reset_game_frame)
next
  case (Disconnect sp)
  with st have "rm' = fst (disconnect rm sp)"
    by (auto simp: step_def)
  then show ?thesis
    using disconnect_frame(3)[of rm sp]
    by (intro cooling_frame[OF co, where X = "{t. \<exists>k. snd t = RemovalCheck k}"])
       (auto simp: disconnect_frame(1,2))
next
  case (Elapse ms)
  with st co show ?thesis
    by (auto simp: step_def cooling_def)
next
  case (FireTimeout n)
  with st have n: "n < length (timeouts rm)" and due: "fst (timeouts rm ! n) \<le> clock rm"
    by (auto simp: step_def split: if_splits)
  define rm1 where "rm1 = rm\<lparr>timeouts := take n (timeouts rm) @ drop (Suc n) (timeouts rm)\<rparr>"
  have sub: "set (timeouts rm1) \<subseteq> set (timeouts rm)"
    using nth_remove_in[OF n] by (simp add: rm1_def)
  have notpc: "snd (timeouts rm ! n) \<noteq> CooldownExpiry pc"
    using co n due cl unfolding cooling_def by (metis nth_mem not_less order_trans)
  show ?thesis
  proof (cases "snd (timeouts rm ! n)")
    case (CooldownExpiry q)
    with notpc have "q \<noteq> pc" by auto
    moreover from st FireTimeout n due CooldownExpiry have "rm' = fst (cooldownExpired rm1 q)"
      by (auto simp: step_def Let_def rm1_def)
    ultimately show ?thesis
      using sub
      by (intro cooling_frame[OF co, where X = "{}"])
         (auto simp: cooldownExpired_def rm1_def)
  next
    case (RemovalCheck k)
    with st FireTimeout n due have "removalCheck rm1 k = Inr (rm', ems)"
      by (auto simp: step_def Let_def rm1_def split: sum.splits)
    from removalCheck_frame[OF this] sub show ?thesis
      by (intro cooling_frame[OF co, where X = "{}"]) (auto simp: rm1_def)
  qed
next
  case (FireInterval h rs)
  with st have "rm' = fst (shrinkTick rm rs)"
    by (auto simp: step_def split: if_splits)
  then show ?thesis
    using shrinkTick_frame[of rm rs]
    by (intro cooling_frame[OF co, where X = "{}"]) simp_all
qed

lemma cooling_run:
  assumes "cooling rm pc T" and "run rm as = Some rm'" and "clock rm' < T"
  shows "cooling rm' pc T"
  using assms
proof (induction as arbitrary: rm)
  case Nil
  then show ?case by simp
next
  case (Cons a as)
  from Cons.prems(2) obtain rm1 ems where s: "step rm a = Some (rm1, ems)"
    and r: "run rm1 as = Some rm'"
    by (auto split: option.splits)
  have mono: "clock r \<le> clock rm'" if "run r bs = Some rm'" for r bs
    using that
  proof (induction bs arbitrary: r)
    case Nil
    then show ?case by simp
  next
    case (Cons b bs)
    then obtain r1 e1 where "step r b = Some (r1, e1)" "run r1 bs = Some rm'"
      by (auto split: option.splits)
    with Cons.IH[of r1] clock_step[of r b r1 e1] show ?case by simp
  qed
  have "clock rm < T"
    using mono[OF Cons.prems(2)] Cons.prems(3) by simp
  from cooling_step[OF Cons.prems(1) s this] have "cooling rm1 pc T" .
  from Cons.IH[OF this r Cons.prems(3)] show ?case .
qed

lemma king_gate_exempt:
  assumes "piece_type (pieceObjs rm pc) = King"
  shows "isValidMove (rm\<lparr>pieceObjs := (pieceObjs rm)(pc := (pieceObjs rm pc)\<lparr>canMove := b\<rparr>)\<rparr>) pc r c
     = isValidMove rm pc r c"
proof -
  have "(\<lambda>p. piece_type (if p = pc then (pieceObjs rm pc)\<lparr>canMove := b\<rparr> else pieceObjs rm p) = King)
      = (\<lambda>p. piece_type (pieceObjs rm p) = King)"
    by auto
  then show ?thesis
    using assms
    by (auto simp: isValidMove_def fun_upd_def split: option.splits)
qed

text \<open>
  C6. In a reachable room, take a move request that passes the handler's gates and
  \<^verbatim>\<open>isValidMove\<close>. The handler executes it. If the piece is not a king, it leaves the
  handler with \<open>canMove = False\<close> and one expiry callback due 5000 ms after the move;
  whatever the server does next, as long as the clock has not reached that time the
  piece still has \<open>canMove = False\<close> (a timeout does not fire before it is due). The
  expiry callback sets \<open>canMove\<close> and broadcasts \<^verbatim>\<open>cooldown_expired\<close> for the piece. If the
  piece is a king, the move leaves its \<open>canMove\<close> flag and the pending timeouts as they
  were, and \<^verbatim>\<open>isValidMove\<close> gives the same answer for a king whatever its flag.
\<close>

theorem cooldown_after_move:
  assumes "reachable rm" and "phase rm = Playing" and "map_of (players rm) sp = Some pl"
    and "alive pl" and "findPiece rm pid = Some pc" and "playerId (pieceObjs rm pc) = sp"
    and "isValidMove rm pc r c = Inr True"
  shows "\<exists>rm1 ems. move_piece rm (Some sp) pid fr fc r c = Inr (rm1, ems)
     \<and> clock rm1 = clock rm
     \<and> (piece_type (pieceObjs rm pc) \<noteq> King \<longrightarrow>
          \<not> canMove (pieceObjs rm1 pc)
          \<and> timeouts rm1 = timeouts rm @ [(clock rm + 5000, CooldownExpiry pc)]
          \<and> (\<forall>as rm2. run rm1 as = Some rm2 \<and> clock rm2 < clock rm + 5000
                \<longrightarrow> \<not> canMove (pieceObjs rm2 pc)))
     \<and> (piece_type (pieceObjs rm pc) = King \<longrightarrow>
          canMove (pieceObjs rm1 pc) = canMove (pieceObjs rm pc) \<and> timeouts rm1 = timeouts rm
          \<and> (\<forall>b. isValidMove (rm\<lparr>pieceObjs := (pieceObjs rm)
                     (pc := (pieceObjs rm pc)\<lparr>canMove := b\<rparr>)\<rparr>) pc r c = Inr True))
     \<and> canMove (pieceObjs (fst (cooldownExpired rm1 pc)) pc)
     \<and> snd (cooldownExpired rm1 pc) = [(ToRoom, CooldownExpired (piece_id (pieceObjs rm1 pc)))]"
proof -
  have inv: "roomInv rm"
    using assms(1) by (rule reachable_roomInv)
  from findPiece_Some[OF assms(5)] inv
  have own: "inBounds (row (pieceObjs rm pc), col (pieceObjs rm pc))" and al: "pc < nextObj rm"
    by (auto simp: roomInv_def ownedPieces_def)
  have ib: "inBounds (r, c)"
    using assms(7) by (rule isValidMove_inBounds)
  obtain rm0 where ex: "executeMove rm pc r c = Inr rm0"
    using own ib by (simp add: executeMove_def)
  define rm1 where "rm1 = fst (checkGameEnd rm0)"
  have mp: "move_piece rm (Some sp) pid fr fc r c
      = Inr (rm1, (ToRoom, PieceMoved pid fr fc r c sp) # snd (checkGameEnd rm0))"
    using assms(2-7) ex by (simp add: move_piece_def rm1_def)
  note e = executeMove_cooldown[OF ex]
  have f1: "pieceObjs rm1 = pieceObjs rm0" "timeouts rm1 = timeouts rm0" "nextObj rm1 = nextObj rm0"
    "clock rm1 = clock rm0"
    by (simp_all add: rm1_def checkGameEnd_frame)
  have nonking: "\<not> canMove (pieceObjs rm1 pc)
          \<and> timeouts rm1 = timeouts rm @ [(clock rm + 5000, CooldownExpiry pc)]
          \<and> (\<forall>as rm2. run rm1 as = Some rm2 \<and> clock rm2 < clock rm + 5000
                \<longrightarrow> \<not> canMove (pieceObjs rm2 pc))"
    if nk: "piece_type (pieceObjs rm pc) \<noteq> King"
  proof -
    have cm: "canMove (pieceObjs rm pc)"
      using isValidMove_gate[OF assms(7)] nk by simp
    have nopending: "pc \<notin> set (cooldownTargets (timeouts rm))"
      using inv cm by (auto simp: roomInv_def cooldownsPending_def)
    have old: "snd t \<noteq> CooldownExpiry pc" if "t \<in> set (timeouts rm)" for t
    proof
      assume "snd t = CooldownExpiry pc"
      with that have "pc \<in> set (cooldownTargets (timeouts rm))"
        by (force simp: cooldownTargets_def)
      with nopending show False by simp
    qed
    have co: "cooling rm1 pc (clock rm + 5000)"
      using e nk al old by (auto simp: cooling_def f1)
    have "\<not> canMove (pieceObjs rm2 pc)" if "run rm1 as = Some rm2" "clock rm2 < clock rm + 5000"
      for as rm2
      using cooling_run[OF co that] by (simp add: cooling_def)
    then show ?thesis
      using e nk by (auto simp: f1)
  qed
  have king: "canMove (pieceObjs rm1 pc) = canMove (pieceObjs rm pc) \<and> timeouts rm1 = timeouts rm
          \<and> (\<forall>b. isValidMove (rm\<lparr>pieceObjs := (pieceObjs rm)
                     (pc := (pieceObjs rm pc)\<lparr>canMove := b\<rparr>)\<rparr>) pc r c = Inr True)"
    if k: "piece_type (pieceObjs rm pc) = King"
    using e k king_gate_exempt[OF k] assms(7) by (simp add: f1)
  have last: "canMove (pieceObjs (fst (cooldownExpired rm1 pc)) pc)
     \<and> snd (cooldownExpired rm1 pc) = [(ToRoom, CooldownExpired (piece_id (pieceObjs rm1 pc)))]"
    by (simp add: cooldownExpired_def)
  have "clock rm1 = clock rm"
    using e by (simp add: f1)
  with mp nonking king last show ?thesis
    by blast
qed

theorem cooldown_after_move_witness:
  "\<exists>rm1 ems rm2. move_piece demoMatch (Some ''p1'') (''p1'', 8) 6 49 7 49 = Inr (rm1, ems)
      \<and> \<not> canMove (pieceObjs rm1 8) \<and> timeouts rm1 = [(5000, CooldownExpiry 8)]
      \<and> run rm1 [Elapse 4999] = Some rm2 \<and> clock rm2 = 4999 \<and> \<not> canMove (pieceObjs rm2 8)"
proof -
  have ph: "phase demoMatch = Playing" by (rule demoMatch_players(1))
  have al: "alive \<lparr>player_id = ''p1'', sessionId = ''k1'', socketId = ''s1'', name = ''ann'',
               isAdmin = True, color = ''#FF6B6B'', pieces = [0..<16], alive = True,
               connected_pl = True, joinedAt = 0, disconnectedAt = None\<rparr>"
    by simp
  have ow: "playerId (pieceObjs demoMatch 8) = ''p1''"
    by (simp add: demoMatch_piece_ids)
  from cooldown_after_move[OF demoMatch_reachable ph demoMatch_p1 al demoMatch_find ow
      demoMatch_valid, of 6 49]
  obtain rm1 ems where mp: "move_piece demoMatch (Some ''p1'') (''p1'', 8) 6 49 7 49 = Inr (rm1, ems)"
    and cl: "clock rm1 = 0" and cm: "\<not> canMove (pieceObjs rm1 8)"
    and ts: "timeouts rm1 = [(5000, CooldownExpiry 8)]"
    and later: "\<And>as rm2. run rm1 as = Some rm2 \<Longrightarrow> clock rm2 < 5000 \<Longrightarrow> \<not> canMove (pieceObjs rm2 8)"
    using demoMatch_pawn by (auto simp: demoMatch_explicit(5,6))
  define rm2 where "rm2 = rm1\<lparr>clock := clock rm1 + 4999\<rparr>"
  have r: "run rm1 [Elapse 4999] = Some rm2"
    by (simp add: step_def rm2_def)
  have c2: "clock rm2 = 4999"
    by (simp add: rm2_def cl)
  from later[OF r] c2 have "\<not> canMove (pieceObjs rm2 8)" by simp
  with mp cm ts r c2 show ?thesis by blast
qed

subsection \<open>Board-piece duality\<close>




lemma setCooldown_coords [simp]:
  "row (pieceObjs (setCooldown rm pc) q) = row (pieceObjs rm q)"
  "col (pieceObjs (setCooldown rm pc) q) = col (pieceObjs rm q)"
  by (simp_all add: setCooldown_def)
















subsection \<open>Duality after the spawn\<close>


















subsection \<open>Duality along a run\<close>











end
